theory Spec2Isabelle
  imports Main "HOL-Library.Word" "HOL-Library.Multiset" "HOL-Library.Signed_Division" "HOL-Library.AList"
begin

section \<open>Board model (takuzu.go)\<close>

text \<open>
  A \<open>Cell\<close> is the Go struct \<open>{Defined bool; Value int}\<close>.  A board is the struct
  \<open>{Size int; Board [][]Cell}\<close>.  Boards are only ever allocated by \<open>New(size)\<close>,
  which panics on a negative size, so \<open>Size\<close> is a natural number here.

  A run-time panic of the Go code (index out of range, nil dereference) is the value
  \<open>None\<close> of every function below that can panic.
\<close>

record Cell =
  Defined :: bool
  Value :: int

record Takuzu =
  Size :: nat
  Board :: "Cell list list"

text \<open>The zero value of \<open>Cell\<close>, as \<open>make([]Cell, n)\<close> produces it.\<close>

definition zeroCell :: Cell where
  "zeroCell = \<lparr>Defined = False, Value = 0\<rparr>"

section \<open>Range checks\<close>

text \<open>
  The error of \<open>checkRange\<close>: \<open>"3+ same values v"\<close> is \<open>TooManyAdjacentValues v\<close>,
  \<open>"too many zeroes"\<close> is \<open>TooManyValues 0\<close> and \<open>"too many ones"\<close> is
  \<open>TooManyValues 1\<close> (the later revision of the file returns exactly these as
  \<open>validationError{ErrorType, CellValue}\<close>).
\<close>

datatype rangeError = TooManyAdjacentValues int | TooManyValues int

text \<open>
  The loop of \<open>checkRange\<close>.  The state is \<open>(full, counters[0], counters[1],
  prevCell.Value, prevCellCount)\<close>.  \<open>Inl\<close> is the early return from inside the loop,
  \<open>Inr\<close> the state at the end of the loop.  \<open>counters[c.Value]++\<close> panics when the
  value of a defined cell is neither 0 nor 1.
\<close>

fun checkRange_loop ::
  "Cell list \<Rightarrow> bool \<times> nat \<times> nat \<times> int \<times> nat \<Rightarrow>
     ((bool \<times> rangeError) + (bool \<times> nat \<times> nat)) option" where
  "checkRange_loop [] (full, n0, n1, pv, pc) = Some (Inr (full, n0, n1))"
| "checkRange_loop (c # cs) (full, n0, n1, pv, pc) =
     (if \<not> Defined c then checkRange_loop cs (False, n0, n1, pv, 0)
      else if Value c \<noteq> 0 \<and> Value c \<noteq> 1 then None
      else
        let n0' = (if Value c = 0 then n0 + 1 else n0);
            n1' = (if Value c = 1 then n1 + 1 else n1)
        in
          if pc = 0 then checkRange_loop cs (full, n0', n1', Value c, 1)
          else if Value c = pv then
            (if pc + 1 > 2 then Some (Inl (full, TooManyAdjacentValues (Value c)))
             else checkRange_loop cs (full, n0', n1', Value c, pc + 1))
          else checkRange_loop cs (full, n0', n1', Value c, 1))"

definition checkRange :: "Cell list \<Rightarrow> (bool \<times> rangeError option) option" where
  "checkRange cells =
     (case checkRange_loop cells (True, 0, 0, 0, 0) of
        None \<Rightarrow> None
      | Some (Inl (full, e)) \<Rightarrow> Some (full, Some e)
      | Some (Inr (full, n0, n1)) \<Rightarrow>
          if n0 > length cells div 2 then Some (full, Some (TooManyValues 0))
          else if n1 > length cells div 2 then Some (full, Some (TooManyValues 1))
          else Some (full, None))"

text \<open>\<open>CheckRangeCounts\<close>: the unvalidated counters.\<close>

fun checkRangeCounts_loop :: "Cell list \<Rightarrow> bool \<times> nat \<times> nat \<Rightarrow> (bool \<times> nat \<times> nat) option" where
  "checkRangeCounts_loop [] st = Some st"
| "checkRangeCounts_loop (c # cs) (full, n0, n1) =
     (if Defined c then
        (if Value c = 0 then checkRangeCounts_loop cs (full, n0 + 1, n1)
         else if Value c = 1 then checkRangeCounts_loop cs (full, n0, n1 + 1)
         else None)
      else checkRangeCounts_loop cs (False, n0, n1))"

definition checkRangeCounts :: "Cell list \<Rightarrow> (bool \<times> nat \<times> nat) option" where
  "checkRangeCounts cells = checkRangeCounts_loop cells (True, 0, 0)"

subsection \<open>The rules a line must follow, stated on the line itself\<close>

text \<open>Every defined cell holds 0 or 1 (the data-model invariant of a cell).\<close>

definition validCells :: "Cell list \<Rightarrow> bool" where
  "validCells cells = list_all (\<lambda>c. Defined c \<longrightarrow> Value c = 0 \<or> Value c = 1) cells"

text \<open>Three adjacent defined cells with the same value start at position \<open>i\<close>.\<close>

definition tripleAt :: "Cell list \<Rightarrow> nat \<Rightarrow> bool" where
  "tripleAt cells i =
     (i + 2 < length cells \<and>
      Defined (cells ! i) \<and> Defined (cells ! (i + 1)) \<and> Defined (cells ! (i + 2)) \<and>
      Value (cells ! i) = Value (cells ! (i + 1)) \<and>
      Value (cells ! (i + 1)) = Value (cells ! (i + 2)))"

definition hasTriple :: "Cell list \<Rightarrow> bool" where
  "hasTriple cells = (\<exists>i < length cells. tripleAt cells i)"

text \<open>The number of defined cells holding \<open>v\<close>.\<close>

definition countValue :: "int \<Rightarrow> Cell list \<Rightarrow> nat" where
  "countValue v cells = length (filter (\<lambda>c. Defined c \<and> Value c = v) cells)"

definition allDefined :: "Cell list \<Rightarrow> bool" where
  "allDefined cells = list_all Defined cells"

subsection \<open>What the loop of \<open>checkRange\<close> computes\<close>

text \<open>
  \<open>firstRun3\<close> is the value of the leftmost three adjacent defined equal cells, if
  any.  The loop state \<open>(prevCell.Value, prevCellCount)\<close> stands for a run of
  \<open>prevCellCount\<close> defined cells of that value just before the rest of the line.
\<close>

fun firstRun3 :: "Cell list \<Rightarrow> int option" where
  "firstRun3 (a # b # c # rest) =
     (if Defined a \<and> Defined b \<and> Defined c \<and> Value a = Value b \<and> Value b = Value c
      then Some (Value a) else firstRun3 (b # c # rest))"
| "firstRun3 _ = None"

definition mkCell :: "int \<Rightarrow> Cell" where "mkCell v = \<lparr>Defined = True, Value = v\<rparr>"

lemma mkCell_simps [simp]: "Defined (mkCell v)" "Value (mkCell v) = v"
  by (simp_all add: mkCell_def)

lemma defined_is_mkCell: "Defined c \<Longrightarrow> c = mkCell (Value c)"
  by (cases c) (simp add: mkCell_def)

lemma firstRun3_undef: "\<not> Defined c \<Longrightarrow> firstRun3 (c # cs) = firstRun3 cs"
proof (cases cs)
  case Nil then show ?thesis by simp
next
  case (Cons x xs)
  assume "\<not> Defined c"
  then show ?thesis using Cons by (cases xs) simp_all
qed

lemma firstRun3_undef2: "\<not> Defined c \<Longrightarrow> firstRun3 (a # c # cs) = firstRun3 cs"
  by (cases cs) (simp_all add: firstRun3_undef)

lemma firstRun3_undef3: "\<not> Defined c \<Longrightarrow> firstRun3 (a # b # c # cs) = firstRun3 cs"
  by (simp add: firstRun3_undef2)

lemma firstRun3_diff: "Value a \<noteq> Value b \<Longrightarrow> firstRun3 (a # b # cs) = firstRun3 (b # cs)"
  by (cases cs) simp_all

lemma firstRun3_diff2: "Value b \<noteq> Value c \<Longrightarrow> firstRun3 (a # b # c # cs) = firstRun3 (c # cs)"
  by (simp add: firstRun3_diff)

lemma countValue_Cons:
  "countValue v (c # cs) = (if Defined c \<and> Value c = v then 1 else 0) + countValue v cs"
  by (simp add: countValue_def)


definition loopPost ::
  "Cell list \<Rightarrow> bool \<Rightarrow> nat \<Rightarrow> nat \<Rightarrow> int option \<Rightarrow>
     ((bool \<times> rangeError) + (bool \<times> nat \<times> nat)) option \<Rightarrow> bool" where
  "loopPost cs full n0 n1 fr res =
     (case fr of
        Some v \<Rightarrow> (\<exists>f. res = Some (Inl (f, TooManyAdjacentValues v)))
      | None \<Rightarrow> res = Some (Inr (full \<and> allDefined cs, n0 + countValue 0 cs, n1 + countValue 1 cs)))"

lemma loopPost_undef:
  "\<not> Defined c \<Longrightarrow> loopPost cs False n0 n1 fr res \<Longrightarrow> loopPost (c # cs) full n0 n1 fr res"
  by (auto simp: loopPost_def allDefined_def countValue_Cons split: option.splits)

lemma loopPost_def0:
  "Defined c \<Longrightarrow> Value c = 0 \<Longrightarrow> loopPost cs full (n0 + 1) n1 fr res \<Longrightarrow> loopPost (c # cs) full n0 n1 fr res"
  by (auto simp: loopPost_def allDefined_def countValue_Cons split: option.splits)

lemma loopPost_def1:
  "Defined c \<Longrightarrow> Value c = 1 \<Longrightarrow> loopPost cs full n0 (n1 + 1) fr res \<Longrightarrow> loopPost (c # cs) full n0 n1 fr res"
  by (auto simp: loopPost_def allDefined_def countValue_Cons split: option.splits)

lemma checkRange_loop_spec:
  assumes "validCells cs" "pc \<le> 2"
  shows "loopPost cs full n0 n1 (firstRun3 (replicate pc (mkCell pv) @ cs))
           (checkRange_loop cs (full, n0, n1, pv, pc))"
  using assms
proof (induction cs arbitrary: full n0 n1 pv pc)
  case Nil
  have "pc = 0 \<or> pc = 1 \<or> pc = 2" using Nil.prems by arith
  then have "firstRun3 (replicate pc (mkCell pv) @ []) = None"
    by (auto simp: numeral_2_eq_2)
  then show ?case by (simp add: loopPost_def allDefined_def countValue_def)
next
  case (Cons c cs)
  have vc: "validCells cs" using Cons.prems by (simp add: validCells_def)
  have pcs: "pc = 0 \<or> pc = 1 \<or> pc = 2" using Cons.prems by arith
  show ?case
  proof (cases "Defined c")
    case False
    have fr: "firstRun3 (replicate pc (mkCell pv) @ c # cs) = firstRun3 (replicate 0 (mkCell pv) @ cs)"
      using pcs False by (auto simp: firstRun3_undef firstRun3_undef2 firstRun3_undef3 numeral_2_eq_2)
    have lp: "checkRange_loop (c # cs) (full, n0, n1, pv, pc) = checkRange_loop cs (False, n0, n1, pv, 0)"
      using False by simp
    show ?thesis unfolding fr lp
      by (rule loopPost_undef[OF False]) (rule Cons.IH[OF vc], simp)
  next
    case True
    then have v01: "Value c = 0 \<or> Value c = 1" using Cons.prems by (simp add: validCells_def)
    have ceq: "c = mkCell (Value c)" using True by (rule defined_is_mkCell)
    define n0' where "n0' = (if Value c = 0 then n0 + 1 else n0)"
    define n1' where "n1' = (if Value c = 1 then n1 + 1 else n1)"
    have post: "loopPost (c # cs) full n0 n1 fr res" if "loopPost cs full n0' n1' fr res" for fr res
      using v01 that True by (auto simp: n0'_def n1'_def intro: loopPost_def0 loopPost_def1)
    consider (same3) "pc = 2" "Value c = pv" | (same2) "pc = 1" "Value c = pv"
      | (diff) "pc \<noteq> 0" "Value c \<noteq> pv" | (zero) "pc = 0"
      using pcs by blast
    then show ?thesis
    proof cases
      case same3
      have "firstRun3 (replicate pc (mkCell pv) @ c # cs) = Some pv"
        using same3 True by (simp add: numeral_2_eq_2)
      moreover have "checkRange_loop (c # cs) (full, n0, n1, pv, pc) = Some (Inl (full, TooManyAdjacentValues pv))"
        using same3 True v01 by auto
      ultimately show ?thesis by (simp add: loopPost_def)
    next
      case same2
      have fr: "firstRun3 (replicate pc (mkCell pv) @ c # cs) = firstRun3 (replicate 2 (mkCell (Value c)) @ cs)"
        using same2 ceq by (simp add: numeral_2_eq_2)
      have lp: "checkRange_loop (c # cs) (full, n0, n1, pv, pc) = checkRange_loop cs (full, n0', n1', Value c, 2)"
        using same2 True v01 by (auto simp: n0'_def n1'_def numeral_2_eq_2)
      show ?thesis unfolding fr lp by (rule post) (rule Cons.IH[OF vc], simp)
    next
      case diff
      have "firstRun3 (replicate pc (mkCell pv) @ c # cs) = firstRun3 (c # cs)"
        using diff pcs by (auto simp: numeral_2_eq_2 firstRun3_diff firstRun3_diff2)
      then have fr: "firstRun3 (replicate pc (mkCell pv) @ c # cs) = firstRun3 (replicate 1 (mkCell (Value c)) @ cs)"
        using ceq by simp
      have lp: "checkRange_loop (c # cs) (full, n0, n1, pv, pc) = checkRange_loop cs (full, n0', n1', Value c, 1)"
        using diff True v01 by (auto simp: n0'_def n1'_def)
      show ?thesis unfolding fr lp by (rule post) (rule Cons.IH[OF vc], simp)
    next
      case zero
      have fr: "firstRun3 (replicate pc (mkCell pv) @ c # cs) = firstRun3 (replicate 1 (mkCell (Value c)) @ cs)"
        using zero ceq by simp
      have lp: "checkRange_loop (c # cs) (full, n0, n1, pv, pc) = checkRange_loop cs (full, n0', n1', Value c, 1)"
        using zero True v01 by (auto simp: n0'_def n1'_def)
      show ?thesis unfolding fr lp by (rule post) (rule Cons.IH[OF vc], simp)
    qed
  qed
qed


lemma tripleAt_Cons_Suc [simp]: "tripleAt (x # xs) (Suc i) = tripleAt xs i"
  by (simp add: tripleAt_def)

lemma tripleAt_0:
  "tripleAt (a # b # c # rest) 0 =
     (Defined a \<and> Defined b \<and> Defined c \<and> Value a = Value b \<and> Value b = Value c)"
  by (simp add: tripleAt_def numeral_2_eq_2)

lemma tripleAt_short [simp]: "length cells < 3 \<Longrightarrow> \<not> tripleAt cells i"
  by (simp add: tripleAt_def)

definition firstTriple :: "Cell list \<Rightarrow> nat \<Rightarrow> bool" where
  "firstTriple cells i = (tripleAt cells i \<and> (\<forall>j<i. \<not> tripleAt cells j))"

lemma firstTriple_0: "tripleAt cells 0 \<Longrightarrow> firstTriple cells i = (i = 0)"
  by (auto simp: firstTriple_def)

lemma firstTriple_Suc:
  "\<not> tripleAt (x # xs) 0 \<Longrightarrow> firstTriple (x # xs) i = (\<exists>k. i = Suc k \<and> firstTriple xs k)"
proof (cases i)
  case 0
  assume "\<not> tripleAt (x # xs) 0"
  then show ?thesis using 0 by (simp add: firstTriple_def)
next
  case (Suc k)
  assume n0: "\<not> tripleAt (x # xs) 0"
  have "(\<forall>j<Suc k. \<not> tripleAt (x # xs) j) = (\<forall>j<k. \<not> tripleAt xs j)"
  proof
    assume a: "\<forall>j<Suc k. \<not> tripleAt (x # xs) j"
    show "\<forall>j<k. \<not> tripleAt xs j"
    proof (intro allI impI)
      fix j assume "j < k"
      then have "Suc j < Suc k" by simp
      with a have "\<not> tripleAt (x # xs) (Suc j)" by blast
      then show "\<not> tripleAt xs j" by simp
    qed
  next
    assume a: "\<forall>j<k. \<not> tripleAt xs j"
    show "\<forall>j<Suc k. \<not> tripleAt (x # xs) j"
    proof (intro allI impI)
      fix j assume "j < Suc k"
      then show "\<not> tripleAt (x # xs) j" using a n0 by (cases j) simp_all
    qed
  qed
  then show ?thesis using Suc by (simp add: firstTriple_def)
qed

lemma firstRun3_step:
  "\<not> tripleAt (a # b # c # rest) 0 \<Longrightarrow> firstRun3 (a # b # c # rest) = firstRun3 (b # c # rest)"
  by (auto simp: tripleAt_0)

lemma firstRun3_hit:
  "tripleAt (a # b # c # rest) 0 \<Longrightarrow> firstRun3 (a # b # c # rest) = Some (Value a)"
  by (auto simp: tripleAt_0)

lemma tripleAt_less: "tripleAt cells i \<Longrightarrow> i < length cells"
  by (simp add: tripleAt_def)

lemma ex_firstTriple_Suc:
  assumes "\<not> tripleAt (x # xs) 0"
  shows "(\<exists>i. firstTriple (x # xs) i \<and> Value ((x # xs) ! i) = v) =
         (\<exists>k. firstTriple xs k \<and> Value (xs ! k) = v)"
proof
  assume "\<exists>i. firstTriple (x # xs) i \<and> Value ((x # xs) ! i) = v"
  then obtain i where i: "firstTriple (x # xs) i" "Value ((x # xs) ! i) = v" by blast
  from i(1) obtain k where k: "i = Suc k" "firstTriple xs k"
    unfolding firstTriple_Suc[OF assms] by blast
  from i(2) k(1) have "Value (xs ! k) = v" by simp
  with k(2) show "\<exists>k. firstTriple xs k \<and> Value (xs ! k) = v" by blast
next
  assume "\<exists>k. firstTriple xs k \<and> Value (xs ! k) = v"
  then obtain k where k: "firstTriple xs k" "Value (xs ! k) = v" by blast
  have "firstTriple (x # xs) (Suc k)"
    unfolding firstTriple_Suc[OF assms] using k(1) by blast
  moreover have "Value ((x # xs) ! Suc k) = v" using k(2) by simp
  ultimately show "\<exists>i. firstTriple (x # xs) i \<and> Value ((x # xs) ! i) = v" by blast
qed

lemma firstRun3_Some_iff:
  "firstRun3 cells = Some v \<longleftrightarrow> (\<exists>i. firstTriple cells i \<and> Value (cells ! i) = v)"
proof (induction cells rule: firstRun3.induct)
  case (1 a b c rest)
  show ?case
  proof (cases "tripleAt (a # b # c # rest) 0")
    case True
    then have "firstRun3 (a # b # c # rest) = Some (Value a)" by (rule firstRun3_hit)
    moreover have "(\<exists>i. firstTriple (a # b # c # rest) i \<and> Value ((a # b # c # rest) ! i) = v)
        = (Value a = v)"
      unfolding firstTriple_0[OF True] by simp
    ultimately show ?thesis by auto
  next
    case False
    then have cond: "\<not> (Defined a \<and> Defined b \<and> Defined c \<and> Value a = Value b \<and> Value b = Value c)"
      unfolding tripleAt_0 .
    have "firstRun3 (a # b # c # rest) = firstRun3 (b # c # rest)"
      using False by (rule firstRun3_step)
    then show ?thesis
      using "1.IH"[OF cond] by (simp only: ex_firstTriple_Suc[OF False])
  qed
qed (simp_all add: firstTriple_def)

lemma firstRun3_None_iff: "firstRun3 cells = None \<longleftrightarrow> \<not> hasTriple cells"
proof -
  have "hasTriple cells \<longleftrightarrow> (\<exists>i. firstTriple cells i)"
  proof
    assume "hasTriple cells"
    then obtain i where "tripleAt cells i" by (auto simp: hasTriple_def)
    then have "tripleAt cells (LEAST i. tripleAt cells i)" by (rule LeastI)
    moreover have "\<forall>j<(LEAST i. tripleAt cells i). \<not> tripleAt cells j"
      using not_less_Least by blast
    ultimately have "firstTriple cells (LEAST i. tripleAt cells i)"
      unfolding firstTriple_def by blast
    then show "\<exists>i. firstTriple cells i" by blast
  next
    assume "\<exists>i. firstTriple cells i"
    then obtain i where "tripleAt cells i" unfolding firstTriple_def by blast
    then show "hasTriple cells" unfolding hasTriple_def using tripleAt_less by blast
  qed
  moreover have "firstRun3 cells \<noteq> None \<longleftrightarrow> (\<exists>i. firstTriple cells i)"
    using firstRun3_Some_iff[of cells] by (cases "firstRun3 cells") auto
  ultimately show ?thesis by blast
qed

lemma checkRange_char:
  assumes "validCells cells"
  shows "((\<exists>full. checkRange cells = Some (full, Some (TooManyAdjacentValues v))) \<longleftrightarrow>
            (\<exists>i. firstTriple cells i \<and> Value (cells ! i) = v))
       \<and> (\<not> hasTriple cells \<longrightarrow>
            checkRange cells =
              Some (allDefined cells,
                    if countValue 0 cells > length cells div 2 then Some (TooManyValues 0)
                    else if countValue 1 cells > length cells div 2 then Some (TooManyValues 1)
                    else None))"
proof -
  have lp: "loopPost cells True 0 0 (firstRun3 cells) (checkRange_loop cells (True, 0, 0, 0, 0))"
    using checkRange_loop_spec[OF assms, of 0 True 0 0 0] by simp
  show ?thesis
  proof (cases "firstRun3 cells")
    case None
    then have nt: "\<not> hasTriple cells" by (simp add: firstRun3_None_iff)
    have nf: "\<not> (\<exists>i. firstTriple cells i \<and> Value (cells ! i) = v)"
      using None firstRun3_Some_iff[of cells v] by simp
    from lp None have "checkRange_loop cells (True, 0, 0, 0, 0) =
        Some (Inr (allDefined cells, countValue 0 cells, countValue 1 cells))"
      by (simp add: loopPost_def)
    then show ?thesis using nt nf by (simp add: checkRange_def)
  next
    case (Some w)
    then have ht: "hasTriple cells" using firstRun3_None_iff[of cells] by simp
    from lp Some obtain f where "checkRange_loop cells (True, 0, 0, 0, 0) = Some (Inl (f, TooManyAdjacentValues w))"
      by (auto simp: loopPost_def)
    then have cr: "checkRange cells = Some (f, Some (TooManyAdjacentValues w))"
      by (simp add: checkRange_def)
    have "(\<exists>i. firstTriple cells i \<and> Value (cells ! i) = v) \<longleftrightarrow> w = v"
      using Some firstRun3_Some_iff[of cells v] by simp
    moreover have "(\<exists>full. checkRange cells = Some (full, Some (TooManyAdjacentValues v))) \<longleftrightarrow> w = v"
      using cr by auto
    ultimately show ?thesis using ht by simp
  qed
qed



text \<open>
  Claim C5.  On a line whose defined cells hold 0 or 1, \<open>checkRange\<close> returns the
  three-adjacent error carrying \<open>v\<close> exactly when the leftmost run of three adjacent
  defined equal cells has value \<open>v\<close> (an undefined cell breaks a run).  When the line
  has no such run, the boolean is true exactly when every cell is defined, and the error
  is "too many zeroes" when more than half of the cells are defined zeros, else
  "too many ones" when more than half are defined ones, else none.
\<close>

theorem checkRange_spec:
  assumes "validCells cells"
  shows "((\<exists>full. checkRange cells = Some (full, Some (TooManyAdjacentValues v))) \<longleftrightarrow>
            (\<exists>i. firstTriple cells i \<and> Value (cells ! i) = v))
       \<and> (\<not> hasTriple cells \<longrightarrow>
            checkRange cells =
              Some (allDefined cells,
                    if countValue 0 cells > length cells div 2 then Some (TooManyValues 0)
                    else if countValue 1 cells > length cells div 2 then Some (TooManyValues 1)
                    else None))"
  using assms by (rule checkRange_char)

theorem checkRange_spec_witness:
  "validCells [mkCell 1, mkCell 1, mkCell 1, zeroCell] \<and>
   (\<exists>i. firstTriple [mkCell 1, mkCell 1, mkCell 1, zeroCell] i \<and>
        Value ([mkCell 1, mkCell 1, mkCell 1, zeroCell] ! i) = 1)"
proof -
  let ?cs = "[mkCell 1, mkCell 1, mkCell 1, zeroCell]"
  have v: "validCells ?cs"
    by (simp add: validCells_def zeroCell_def)
  have "checkRange ?cs = Some (True, Some (TooManyAdjacentValues 1))"
    by (simp add: checkRange_def zeroCell_def)
  then have c: "\<exists>full. checkRange ?cs = Some (full, Some (TooManyAdjacentValues 1))"
    by blast
  from checkRange_spec [OF v, of 1] c
  have "\<exists>i. firstTriple ?cs i \<and> Value (?cs ! i) = 1" by blast
  with v show ?thesis by blast
qed

section \<open>Board access\<close>

text \<open>
  \<open>GetLine(i)\<close> is \<open>b.Board[i]\<close>.  \<open>GetColumn(i)\<close> allocates \<open>Size\<close> zero cells and
  stores \<open>b.Board[l][i]\<close> at \<open>l\<close> for every row \<open>l\<close> of \<open>b.Board\<close>: it panics when the
  board has more than \<open>Size\<close> rows or a row has no cell \<open>i\<close>.
\<close>

definition GetLine :: "Takuzu \<Rightarrow> nat \<Rightarrow> Cell list option" where
  "GetLine b i = (if i < length (Board b) then Some (Board b ! i) else None)"

definition GetColumn :: "Takuzu \<Rightarrow> nat \<Rightarrow> Cell list option" where
  "GetColumn b i =
     (if length (Board b) \<le> Size b \<and> list_all (\<lambda>row. i < length row) (Board b)
      then Some (map (\<lambda>row. row ! i) (Board b) @ replicate (Size b - length (Board b)) zeroCell)
      else None)"

text \<open>
  \<open>CheckLine\<close> and \<open>CheckColumn\<close> drop the boolean of \<open>checkRange\<close>; the inner
  option is Go's \<open>error\<close> (\<open>None\<close> is \<open>nil\<close>).
\<close>

definition CheckLine :: "Takuzu \<Rightarrow> nat \<Rightarrow> rangeError option option" where
  "CheckLine b i = (case GetLine b i of None \<Rightarrow> None | Some d \<Rightarrow> map_option snd (checkRange d))"

definition CheckColumn :: "Takuzu \<Rightarrow> nat \<Rightarrow> rangeError option option" where
  "CheckColumn b i = (case GetColumn b i of None \<Rightarrow> None | Some d \<Rightarrow> map_option snd (checkRange d))"

text \<open>
  The shape of a board made by \<open>New\<close>: \<open>Size\<close> rows of \<open>Size\<close> cells.  A well-formed
  board moreover keeps the invariant of its cells.
\<close>

definition wfShape :: "Takuzu \<Rightarrow> bool" where
  "wfShape b = (length (Board b) = Size b \<and> list_all (\<lambda>row. length row = Size b) (Board b))"

definition wfBoard :: "Takuzu \<Rightarrow> bool" where
  "wfBoard b = (wfShape b \<and> list_all validCells (Board b))"

text \<open>Row \<open>i\<close> and column \<open>i\<close> of a board, read off the grid.\<close>

definition rowOf :: "Takuzu \<Rightarrow> nat \<Rightarrow> Cell list" where
  "rowOf b i = Board b ! i"

definition colOf :: "Takuzu \<Rightarrow> nat \<Rightarrow> Cell list" where
  "colOf b i = map (\<lambda>row. row ! i) (Board b)"

section \<open>Whole-board validation\<close>

text \<open>
  The error of \<open>Validate\<close>: the error of \<open>checkRange\<close> wrapped with \<open>"line i"\<close> or
  \<open>"column i"\<close>, or \<open>"duplicate lines (i)"\<close>, \<open>"duplicate columns (i)"\<close>.
\<close>

datatype validationError =
    LineError nat rangeError
  | ColumnError nat rangeError
  | DuplicateLines nat
  | DuplicateColumns nat

text \<open>
  \<open>computeVal\<close>: \<open>val += cells[i].Value * 1 << uint(i)\<close> on Go's 64-bit \<open>int\<close>.
  \<open>*\<close> and \<open><<\<close> have the same precedence and associate to the left, so the summand
  is \<open>(Value * 1) << i\<close>; a shift by 64 or more gives 0, as \<open>push_bit\<close> does on a
  64-bit word.
\<close>

fun computeVal_loop :: "Cell list \<Rightarrow> nat \<Rightarrow> 64 word \<Rightarrow> 64 word" where
  "computeVal_loop [] i val = val"
| "computeVal_loop (c # cs) i val =
     computeVal_loop cs (i + 1) (val + push_bit i (word_of_int (Value c) * 1))"

definition computeVal :: "Cell list \<Rightarrow> 64 word" where
  "computeVal cells = computeVal_loop cells 0 0"

text \<open>
  The loop of \<open>Validate\<close> over \<open>i = 0 .. Size - 1\<close>.  The state is \<open>(finished,
  lineVals, colVals)\<close>; a Go \<open>map[int]bool\<close> reads \<open>false\<close> at a missing key.
\<close>

fun Validate_loop ::
  "Takuzu \<Rightarrow> nat list \<Rightarrow> bool \<times> (64 word \<Rightarrow> bool) \<times> (64 word \<Rightarrow> bool) \<Rightarrow>
     (bool \<times> validationError option) option" where
  "Validate_loop b [] (finished, lineVals, colVals) = Some (finished, None)"
| "Validate_loop b (i # rest) (finished, lineVals, colVals) =
     (case GetLine b i of None \<Rightarrow> None | Some d \<Rightarrow>
      (case checkRange d of None \<Rightarrow> None
       | Some (full, Some err) \<Rightarrow> Some (False, Some (LineError i err))
       | Some (full, None) \<Rightarrow>
          if full \<and> lineVals (computeVal d) then Some (False, Some (DuplicateLines i))
          else
            let lineVals' = (if full then lineVals (computeVal d := True) else lineVals);
                finished' = (if full then finished else False)
            in
            (case GetColumn b i of None \<Rightarrow> None | Some d' \<Rightarrow>
             (case checkRange d' of None \<Rightarrow> None
              | Some (full', Some err) \<Rightarrow> Some (False, Some (ColumnError i err))
              | Some (full', None) \<Rightarrow>
                 if full' \<and> colVals (computeVal d') then Some (False, Some (DuplicateColumns i))
                 else
                   Validate_loop b rest
                     (if full' then finished' else False,
                      lineVals',
                      if full' then colVals (computeVal d' := True) else colVals)))))"

definition Validate :: "Takuzu \<Rightarrow> (bool \<times> validationError option) option" where
  "Validate b = Validate_loop b [0..<Size b] (True, \<lambda>_. False, \<lambda>_. False)"

subsection \<open>Soundness of validation\<close>

lemma hasTriple_firstTriple: "hasTriple cells \<longleftrightarrow> (\<exists>i. firstTriple cells i)"
  using firstRun3_None_iff[of cells] firstRun3_Some_iff[of cells]
  by (cases "firstRun3 cells") auto

lemma checkRange_loop_valid:
  "checkRange_loop cs (full, n0, n1, pv, pc) = Some (Inr r) \<Longrightarrow> validCells cs"
proof (induction cs arbitrary: full n0 n1 pv pc)
  case Nil
  then show ?case by (simp add: validCells_def)
next
  case (Cons c cs)
  show ?case
  proof (cases "Defined c")
    case False
    with Cons.prems have "checkRange_loop cs (False, n0, n1, pv, 0) = Some (Inr r)" by simp
    from Cons.IH[OF this] False show ?thesis by (simp add: validCells_def)
  next
    case True
    with Cons.prems have v: "Value c = 0 \<or> Value c = 1" by (auto split: if_splits)
    from Cons.prems True v obtain st where "checkRange_loop cs st = Some (Inr r)"
      by (auto simp: Let_def split: if_splits)
    then have "validCells cs" using Cons.IH by (cases st) auto
    with v show ?thesis by (simp add: validCells_def)
  qed
qed

lemma checkRange_ok:
  assumes "checkRange cells = Some (full, None)"
  shows "validCells cells" "\<not> hasTriple cells" "full = allDefined cells"
    "countValue 0 cells \<le> length cells div 2" "countValue 1 cells \<le> length cells div 2"
proof -
  from assms obtain r where "checkRange_loop cells (True, 0, 0, 0, 0) = Some (Inr r)"
    by (auto simp: checkRange_def split: option.splits sum.splits if_splits)
  then show v: "validCells cells" by (rule checkRange_loop_valid)
  show nt: "\<not> hasTriple cells"
  proof
    assume "hasTriple cells"
    then obtain i where "firstTriple cells i" unfolding hasTriple_firstTriple by blast
    then have "\<exists>f. checkRange cells = Some (f, Some (TooManyAdjacentValues (Value (cells ! i))))"
      using checkRange_char[OF v, of "Value (cells ! i)"] by blast
    with assms show False by simp
  qed
  from checkRange_char[OF v, of 0] nt assms
  have eq: "Some (full, None) = Some (allDefined cells,
                    if countValue 0 cells > length cells div 2 then Some (TooManyValues 0)
                    else if countValue 1 cells > length cells div 2 then Some (TooManyValues 1)
                    else None)" by simp
  then show "full = allDefined cells" by simp
  from eq show "countValue 0 cells \<le> length cells div 2" by (auto split: if_splits)
  from eq show "countValue 1 cells \<le> length cells div 2" by (auto split: if_splits)
qed

lemma GetLine_wf: "wfShape b \<Longrightarrow> i < Size b \<Longrightarrow> GetLine b i = Some (rowOf b i)"
  by (simp add: GetLine_def wfShape_def rowOf_def)

lemma GetColumn_wf: "wfShape b \<Longrightarrow> i < Size b \<Longrightarrow> GetColumn b i = Some (colOf b i)"
  by (auto simp: GetColumn_def wfShape_def colOf_def list_all_iff)

lemma length_rowOf: "wfShape b \<Longrightarrow> i < Size b \<Longrightarrow> length (rowOf b i) = Size b"
  by (simp add: wfShape_def rowOf_def list_all_length)

lemma length_colOf: "wfShape b \<Longrightarrow> length (colOf b i) = Size b"
  by (simp add: wfShape_def colOf_def)

text \<open>
  What one successful run of the loop establishes along the indices it visits: every
  line passes \<open>checkRange\<close>, and the fingerprint of a fully defined line was not yet
  in the map when the line was reached.
\<close>

fun goodSeq :: "(nat \<Rightarrow> Cell list) \<Rightarrow> (64 word \<Rightarrow> bool) \<Rightarrow> nat list \<Rightarrow> bool" where
  "goodSeq f seen [] = True"
| "goodSeq f seen (i # rest) =
     ((\<exists>fl. checkRange (f i) = Some (fl, None)) \<and>
      \<not> (allDefined (f i) \<and> seen (computeVal (f i))) \<and>
      goodSeq f (if allDefined (f i) then seen (computeVal (f i) := True) else seen) rest)"

lemma Validate_loop_Cons_ok:
  assumes "Validate_loop b (i # rest) (fin, lv, cv) = Some (fin', None)"
  obtains d full d' full' where
    "GetLine b i = Some d" "checkRange d = Some (full, None)" "\<not> (full \<and> lv (computeVal d))"
    "GetColumn b i = Some d'" "checkRange d' = Some (full', None)" "\<not> (full' \<and> cv (computeVal d'))"
    "Validate_loop b rest
       (if full' then (if full then fin else False) else False,
        if full then lv (computeVal d := True) else lv,
        if full' then cv (computeVal d' := True) else cv) = Some (fin', None)"
proof -
  from assms obtain d where d: "GetLine b i = Some d"
    by (cases "GetLine b i") simp_all
  from assms d obtain full e where c0: "checkRange d = Some (full, e)"
    by (cases "checkRange d") auto
  have "e = None" using assms d c0 by (cases e) simp_all
  with c0 have c: "checkRange d = Some (full, None)" by simp
  have nd: "\<not> (full \<and> lv (computeVal d))"
  proof
    assume "full \<and> lv (computeVal d)"
    then have "Validate_loop b (i # rest) (fin, lv, cv) = Some (False, Some (DuplicateLines i))"
      by (simp add: d c)
    with assms show False by simp
  qed
  have step1: "Validate_loop b (i # rest) (fin, lv, cv) =
     (let lineVals' = (if full then lv (computeVal d := True) else lv);
          finished' = (if full then fin else False)
      in
      (case GetColumn b i of None \<Rightarrow> None | Some d' \<Rightarrow>
             (case checkRange d' of None \<Rightarrow> None
              | Some (full', Some err) \<Rightarrow> Some (False, Some (ColumnError i err))
              | Some (full', None) \<Rightarrow>
                 if full' \<and> cv (computeVal d') then Some (False, Some (DuplicateColumns i))
                 else
                   Validate_loop b rest
                     (if full' then finished' else False,
                      lineVals',
                      if full' then cv (computeVal d' := True) else cv))))"
    using nd by (simp add: d c)
  from assms obtain d' where d': "GetColumn b i = Some d'"
    unfolding step1 by (cases "GetColumn b i") simp_all
  from assms d' obtain full' e' where c0': "checkRange d' = Some (full', e')"
    unfolding step1 by (cases "checkRange d'") auto
  have "e' = None" using assms d' c0' unfolding step1 by (cases e') simp_all
  with c0' have c': "checkRange d' = Some (full', None)" by simp
  have nd': "\<not> (full' \<and> cv (computeVal d'))"
  proof
    assume "full' \<and> cv (computeVal d')"
    then have "Validate_loop b (i # rest) (fin, lv, cv) = Some (False, Some (DuplicateColumns i))"
      unfolding step1 by (simp add: d' c')
    with assms show False by simp
  qed
  have "Validate_loop b (i # rest) (fin, lv, cv) =
     Validate_loop b rest
       (if full' then (if full then fin else False) else False,
        if full then lv (computeVal d := True) else lv,
        if full' then cv (computeVal d' := True) else cv)"
    unfolding step1 using nd' by (auto simp: d' c' Let_def)
  with assms have "Validate_loop b rest
       (if full' then (if full then fin else False) else False,
        if full then lv (computeVal d := True) else lv,
        if full' then cv (computeVal d' := True) else cv) = Some (fin', None)"
    by simp
  with d c nd d' c' nd' show thesis by (rule that)
qed

lemma Validate_loop_goodSeq:
  assumes "wfShape b" "\<forall>i\<in>set is. i < Size b"
    "Validate_loop b is (fin, lv, cv) = Some (fin', None)"
  shows "goodSeq (rowOf b) lv is \<and> goodSeq (colOf b) cv is"
  using assms(2,3)
proof (induction "is" arbitrary: fin lv cv)
  case Nil
  then show ?case by simp
next
  case (Cons i rest)
  have i: "i < Size b" and rest: "\<forall>i\<in>set rest. i < Size b" using Cons.prems(1) by simp_all
  note gl = GetLine_wf[OF assms(1) i] and gc = GetColumn_wf[OF assms(1) i]
  from Cons.prems(2) obtain d full d' full' where st:
    "GetLine b i = Some d" "checkRange d = Some (full, None)" "\<not> (full \<and> lv (computeVal d))"
    "GetColumn b i = Some d'" "checkRange d' = Some (full', None)" "\<not> (full' \<and> cv (computeVal d'))"
    "Validate_loop b rest
       (if full' then (if full then fin else False) else False,
        if full then lv (computeVal d := True) else lv,
        if full' then cv (computeVal d' := True) else cv) = Some (fin', None)"
    by (rule Validate_loop_Cons_ok)
  have d: "d = rowOf b i" and d': "d' = colOf b i" using st(1,4) gl gc by simp_all
  have fr: "full = allDefined d" using checkRange_ok(3)[OF st(2)] .
  have fc: "full' = allDefined d'" using checkRange_ok(3)[OF st(5)] .
  from Cons.IH[OF rest st(7)]
  have "goodSeq (rowOf b) (if full then lv (computeVal d := True) else lv) rest \<and>
        goodSeq (colOf b) (if full' then cv (computeVal d' := True) else cv) rest" .
  then show ?case using st(2,3,5,6) unfolding fr fc d d' by simp
qed

lemma goodSeq_Cons:
  "goodSeq f seen (i # rest) \<Longrightarrow>
     goodSeq f (if allDefined (f i) then seen (computeVal (f i) := True) else seen) rest"
  by simp

lemma goodSeq_ok: "goodSeq f seen is \<Longrightarrow> i \<in> set is \<Longrightarrow> \<exists>fl. checkRange (f i) = Some (fl, None)"
proof (induction "is" arbitrary: seen)
  case Nil
  then show ?case by simp
next
  case (Cons a rest)
  show ?case
  proof (cases "i = a")
    case True
    then show ?thesis using Cons.prems(1) by simp
  next
    case False
    then have "i \<in> set rest" using Cons.prems(2) by simp
    with goodSeq_Cons[OF Cons.prems(1)] show ?thesis by (rule Cons.IH)
  qed
qed

lemma goodSeq_unseen:
  "goodSeq f seen is \<Longrightarrow> k < length is \<Longrightarrow> allDefined (f (is ! k)) \<Longrightarrow>
     \<not> seen (computeVal (f (is ! k)))"
proof (induction "is" arbitrary: seen k)
  case Nil
  then show ?case by simp
next
  case (Cons i rest)
  show ?case
  proof (cases k)
    case 0
    have "\<not> (allDefined (f i) \<and> seen (computeVal (f i)))" using Cons.prems(1) by simp
    then show ?thesis using 0 Cons.prems(3) by simp
  next
    case (Suc m)
    let ?seen' = "if allDefined (f i) then seen (computeVal (f i) := True) else seen"
    have "goodSeq f ?seen' rest" using Cons.prems(1) by (rule goodSeq_Cons)
    moreover have "m < length rest" "allDefined (f (rest ! m))" using Cons.prems Suc by simp_all
    ultimately have "\<not> ?seen' (computeVal (f (rest ! m)))" by (rule Cons.IH)
    then have "\<not> seen (computeVal (f (rest ! m)))" by (auto split: if_splits)
    then show ?thesis using Suc by simp
  qed
qed

lemma goodSeq_distinct:
  "goodSeq f seen is \<Longrightarrow> k' < k \<Longrightarrow> k < length is \<Longrightarrow>
   allDefined (f (is ! k')) \<Longrightarrow> allDefined (f (is ! k)) \<Longrightarrow>
     computeVal (f (is ! k')) \<noteq> computeVal (f (is ! k))"
proof (induction "is" arbitrary: seen k k')
  case Nil
  then show ?case by simp
next
  case (Cons i rest)
  from Cons.prems(2) obtain m where k: "k = Suc m" by (cases k) auto
  let ?seen' = "if allDefined (f i) then seen (computeVal (f i) := True) else seen"
  have g: "goodSeq f ?seen' rest" using Cons.prems(1) by (rule goodSeq_Cons)
  have m: "m < length rest" "allDefined (f (rest ! m))" using Cons.prems k by simp_all
  show ?case
  proof (cases k')
    case 0
    then have d: "allDefined (f i)" using Cons.prems(4) by simp
    from goodSeq_unseen[OF g m] d have "computeVal (f (rest ! m)) \<noteq> computeVal (f i)"
      by (auto split: if_splits)
    then show ?thesis using 0 k by auto
  next
    case (Suc m')
    have "m' < m" "allDefined (f (rest ! m'))" using Cons.prems Suc k by simp_all
    from Cons.IH[OF g this(1) m(1) this(2) m(2)] show ?thesis using Suc k by simp
  qed
qed

lemma goodSeq_upt_differ:
  assumes "goodSeq f seen [0..<n]" "i < n" "j < n" "i \<noteq> j" "allDefined (f i)" "allDefined (f j)"
  shows "f i \<noteq> f j"
proof -
  have *: "computeVal (f i') \<noteq> computeVal (f j')"
    if "i' < j'" "j' < n" "allDefined (f i')" "allDefined (f j')" for i' j'
    using goodSeq_distinct[OF assms(1), of i' j'] that by simp
  from assms(4) consider "i < j" | "j < i" by arith
  then show ?thesis
  proof cases
    case 1
    from *[OF 1 assms(3,5,6)] show ?thesis by auto
  next
    case 2
    from *[OF 2 assms(2,6,5)] show ?thesis by auto
  qed
qed

text \<open>
  Claim C1.  When \<open>Validate\<close> returns no error on a board of \<open>Size\<close> rows of
  \<open>Size\<close> cells, no row and no column holds three adjacent defined equal values, none
  holds more than \<open>Size / 2\<close> defined zeros or more than \<open>Size / 2\<close> defined ones,
  no two fully defined rows are identical and no two fully defined columns are
  identical.
\<close>

theorem Validate_sound:
  assumes "wfShape b" and "Validate b = Some (fin, None)"
  shows "(\<forall>i<Size b.
            \<not> hasTriple (rowOf b i) \<and> \<not> hasTriple (colOf b i) \<and>
            countValue 0 (rowOf b i) \<le> Size b div 2 \<and> countValue 1 (rowOf b i) \<le> Size b div 2 \<and>
            countValue 0 (colOf b i) \<le> Size b div 2 \<and> countValue 1 (colOf b i) \<le> Size b div 2)
       \<and> (\<forall>i<Size b. \<forall>j<Size b.
            i \<noteq> j \<and> allDefined (rowOf b i) \<and> allDefined (rowOf b j) \<longrightarrow> rowOf b i \<noteq> rowOf b j)
       \<and> (\<forall>i<Size b. \<forall>j<Size b.
            i \<noteq> j \<and> allDefined (colOf b i) \<and> allDefined (colOf b j) \<longrightarrow> colOf b i \<noteq> colOf b j)"
proof -
  have g: "goodSeq (rowOf b) (\<lambda>_. False) [0..<Size b] \<and> goodSeq (colOf b) (\<lambda>_. False) [0..<Size b]"
    using Validate_loop_goodSeq[OF assms(1), of "[0..<Size b]"] assms(2)
    by (simp add: Validate_def)
  have lines: "\<not> hasTriple (rowOf b i) \<and> \<not> hasTriple (colOf b i) \<and>
            countValue 0 (rowOf b i) \<le> Size b div 2 \<and> countValue 1 (rowOf b i) \<le> Size b div 2 \<and>
            countValue 0 (colOf b i) \<le> Size b div 2 \<and> countValue 1 (colOf b i) \<le> Size b div 2"
    if i: "i < Size b" for i
  proof -
    from g i obtain fl where r: "checkRange (rowOf b i) = Some (fl, None)"
      using goodSeq_ok[of "rowOf b" _ "[0..<Size b]" i] by auto
    from g i obtain fl' where c: "checkRange (colOf b i) = Some (fl', None)"
      using goodSeq_ok[of "colOf b" _ "[0..<Size b]" i] by auto
    show ?thesis
      using checkRange_ok(2,4,5)[OF r] checkRange_ok(2,4,5)[OF c]
        length_rowOf[OF assms(1) i] length_colOf[OF assms(1), of i] by simp
  qed
  have rows: "rowOf b i \<noteq> rowOf b j"
    if "i < Size b" "j < Size b" "i \<noteq> j" "allDefined (rowOf b i)" "allDefined (rowOf b j)" for i j
    using goodSeq_upt_differ[of "rowOf b" _ "Size b" i j] g that by blast
  have cols: "colOf b i \<noteq> colOf b j"
    if "i < Size b" "j < Size b" "i \<noteq> j" "allDefined (colOf b i)" "allDefined (colOf b j)" for i j
    using goodSeq_upt_differ[of "colOf b" _ "Size b" i j] g that by blast
  show ?thesis using lines rows cols by blast
qed

text \<open>A solved 4x4 board.\<close>

definition exampleBoard4 :: Takuzu where
  "exampleBoard4 = \<lparr>Size = 4, Board = map (map mkCell) [[0,1,1,0],[1,0,0,1],[0,0,1,1],[1,1,0,0]]\<rparr>"

lemma ex4_wf: "wfShape exampleBoard4"
  by (simp add: wfShape_def exampleBoard4_def)

lemma upt4: "[0..<4] = [0,1,2,3]"
  by (simp add: upt_rec)

lemma ex4_valid: "Validate exampleBoard4 = Some (True, None)"
  by (simp add: Validate_def exampleBoard4_def upt4 GetLine_def GetColumn_def checkRange_def computeVal_def)

theorem Validate_sound_witness:
  "wfShape exampleBoard4 \<and> Validate exampleBoard4 = Some (True, None) \<and>
   \<not> hasTriple (rowOf exampleBoard4 0) \<and> rowOf exampleBoard4 0 \<noteq> rowOf exampleBoard4 1"
proof -
  have a: "allDefined (rowOf exampleBoard4 0)" "allDefined (rowOf exampleBoard4 1)"
    by (simp_all add: rowOf_def exampleBoard4_def allDefined_def)
  have s: "Size exampleBoard4 = 4" by (simp add: exampleBoard4_def)
  from Validate_sound[OF ex4_wf ex4_valid] a s
  have "\<not> hasTriple (rowOf exampleBoard4 0) \<and> rowOf exampleBoard4 0 \<noteq> rowOf exampleBoard4 1"
    by simp
  with ex4_wf ex4_valid show ?thesis by simp
qed

section \<open>The board and its text form\<close>

text \<open>
  \<open>New(size)\<close>: \<open>size\<close> rows of \<open>size\<close> zero cells.  \<open>NewFromString\<close> and \<open>Clone\<close> below
  start from such a board and overwrite its cells.
\<close>

definition New :: "nat \<Rightarrow> Takuzu" where
  "New sz = \<lparr>Size = sz, Board = replicate sz (replicate sz zeroCell)\<rparr>"

text \<open>
  \<open>int(math.Sqrt(float64(l)))\<close>.  \<open>float64(l)\<close> is exact for every length a string
  can have, the square root of a perfect square is then exact, and for any other
  \<open>l\<close> no candidate passes the test \<open>size * size = l\<close> that follows; the largest
  \<open>k\<close> with \<open>k * k \<le> l\<close> therefore gives the same outcome.
\<close>

primrec isqrt_from :: "nat \<Rightarrow> nat \<Rightarrow> nat" where
  "isqrt_from l 0 = 0"
| "isqrt_from l (Suc k) = (if Suc k * Suc k \<le> l then Suc k else isqrt_from l k)"

definition isqrt :: "nat \<Rightarrow> nat" where
  "isqrt l = isqrt_from l l"

text \<open>The \<open>switch s[i]\<close> of \<open>NewFromString\<close>; \<open>None\<close> is its \<open>default\<close> branch.\<close>

definition decodeChar :: "char \<Rightarrow> Cell option" where
  "decodeChar ch =
     (if ch = CHR ''0'' \<or> ch = CHR ''O'' then Some \<lparr>Defined = True, Value = 0\<rparr>
      else if ch = CHR ''1'' \<or> ch = CHR ''I'' then Some \<lparr>Defined = True, Value = 1\<rparr>
      else if ch = CHR ''.'' then Some zeroCell
      else None)"

text \<open>The characters in the order the two loops read them (\<open>i++\<close>).\<close>

fun decodeCells :: "string \<Rightarrow> Cell list option" where
  "decodeCells [] = Some []"
| "decodeCells (ch # rest) =
     (case decodeChar ch of
        None \<Rightarrow> None
      | Some c \<Rightarrow> (case decodeCells rest of None \<Rightarrow> None | Some cs \<Rightarrow> Some (c # cs)))"

text \<open>
  \<open>NewFromString\<close>: once \<open>size * size = l\<close> holds, the loops read every character,
  \<open>s[line * size + col]\<close> into \<open>t.Board[line][col]\<close>, and return the error at the first
  character of the \<open>default\<close> branch.  \<open>Inl\<close> carries the message of the error.
\<close>

definition NewFromString :: "string \<Rightarrow> string + Takuzu" where
  "NewFromString s =
     (let l = length s in
      if l < 4 then Inl ''bad string length''
      else
        let sz = isqrt l in
        if sz * sz \<noteq> l then Inl ''bad string length''
        else
          (case decodeCells s of
             None \<Rightarrow> Inl ''invalid char in string''
           | Some cells \<Rightarrow>
               Inr \<lparr>Size = sz,
                    Board = map (\<lambda>line. take sz (drop (line * sz) cells)) [0..<sz]\<rparr>))"

text \<open>\<open>fmt.Sprintf("%d", v)\<close>: the decimal digits of \<open>v\<close>, after a minus sign if negative.\<close>

fun showNat :: "nat \<Rightarrow> string" where
  "showNat n =
     (if n < 10 then [''0123456789'' ! n]
      else showNat (n div 10) @ [''0123456789'' ! (n mod 10)])"

declare showNat.simps [simp del]

definition showInt :: "int \<Rightarrow> string" where
  "showInt i = (if i < 0 then CHR ''-'' # showNat (nat (- i)) else showNat (nat i))"

definition cellString :: "Cell \<Rightarrow> string" where
  "cellString c = (if Defined c then showInt (Value c) else ''.'')"

text \<open>
  \<open>ToString\<close> reads \<open>b.Board[line][col]\<close> for all \<open>line, col < Size\<close>: it panics when
  one of the first \<open>Size\<close> rows is missing or shorter than \<open>Size\<close>.
\<close>

definition ToString :: "Takuzu \<Rightarrow> string option" where
  "ToString b =
     (if Size b \<le> length (Board b) \<and>
         list_all (\<lambda>row. Size b \<le> length row) (take (Size b) (Board b))
      then Some (concat (map (\<lambda>row. concat (map cellString (take (Size b) row)))
                   (take (Size b) (Board b))))
      else None)"


subsection \<open>Decoding an encoded board\<close>

lemma isqrt_from_le: "isqrt_from l k \<le> k"
  by (induction k) auto

lemma isqrt_from_square: "n \<le> k \<Longrightarrow> k \<le> n * n \<Longrightarrow> isqrt_from (n * n) k = n"
proof (induction k)
  case 0
  then show ?case by simp
next
  case (Suc k)
  show ?case
  proof (cases "Suc k = n")
    case True
    show ?thesis unfolding True[symmetric] by simp
  next
    case False
    then have lt: "n < Suc k" using Suc.prems by simp
    then have "n \<le> k" by simp
    then have "n * n \<le> k * k" by (simp add: mult_le_mono)
    also have "k * k < Suc k * Suc k" by simp
    finally have "\<not> Suc k * Suc k \<le> n * n" by simp
    then have "isqrt_from (n * n) (Suc k) = isqrt_from (n * n) k" by (simp only: isqrt_from.simps if_False)
    moreover have "isqrt_from (n * n) k = n" using Suc lt by simp
    ultimately show ?thesis by simp
  qed
qed

lemma isqrt_square: "isqrt (n * n) = n"
  unfolding isqrt_def by (cases "n = 0") (simp_all add: isqrt_from_square)

lemma isqrt_from_spec: "isqrt_from l k * isqrt_from l k \<le> l"
  by (induction k) auto

lemma showInt_01: "showInt 0 = ''0''" "showInt 1 = ''1''"
  by (simp_all add: showInt_def showNat.simps)


lemma take_drop_concat:
  "\<forall>r\<in>set rows. length r = n \<Longrightarrow> k < length rows \<Longrightarrow>
     take n (drop (k * n) (concat rows)) = rows ! k"
proof (induction rows arbitrary: k)
  case Nil
  then show ?case by simp
next
  case (Cons r rows)
  have lr: "length r = n" using Cons.prems(1) by simp
  show ?case
  proof (cases k)
    case 0
    then show ?thesis using lr by simp
  next
    case (Suc m)
    have "drop (Suc m * n) (r @ concat rows) = drop (m * n) (concat rows)"
      using lr by simp
    moreover have "take n (drop (m * n) (concat rows)) = rows ! m"
      using Cons.IH[of m] Cons.prems Suc by simp
    ultimately show ?thesis using Suc by simp
  qed
qed

lemma chop_concat:
  assumes "\<forall>r\<in>set rows. length r = n" "length rows = n"
  shows "map (\<lambda>line. take n (drop (line * n) (concat rows))) [0..<n] = rows"
proof (rule nth_equalityI)
  show "length (map (\<lambda>line. take n (drop (line * n) (concat rows))) [0..<n]) = length rows"
    using assms(2) by simp
next
  fix i assume "i < length (map (\<lambda>line. take n (drop (line * n) (concat rows))) [0..<n])"
  then have i: "i < n" by simp
  then show "map (\<lambda>line. take n (drop (line * n) (concat rows))) [0..<n] ! i = rows ! i"
    using take_drop_concat[OF assms(1), of i] assms(2) by simp
qed

text \<open>What decoding makes of an encoded cell.\<close>

definition normCell :: "Cell \<Rightarrow> Cell" where
  "normCell c = (if Defined c then c else zeroCell)"

lemma decodeChar_cellString:
  "Defined c \<longrightarrow> Value c = 0 \<or> Value c = 1 \<Longrightarrow>
     \<exists>ch. cellString c = [ch] \<and> decodeChar ch = Some (normCell c)"
proof (cases "Defined c")
  case False
  then have "cellString c = [CHR ''.'']" "normCell c = zeroCell"
    by (simp_all add: cellString_def normCell_def)
  moreover have "decodeChar (CHR ''.'') = Some zeroCell" by (simp add: decodeChar_def)
  ultimately show ?thesis by simp
next
  case True
  assume "Defined c \<longrightarrow> Value c = 0 \<or> Value c = 1"
  with True consider "Value c = 0" | "Value c = 1" by blast
  then show ?thesis
  proof cases
    case 1
    then have "cellString c = [CHR ''0'']" "normCell c = \<lparr>Defined = True, Value = 0\<rparr>"
      using True by (simp_all add: cellString_def normCell_def showInt_01)
    moreover have "decodeChar (CHR ''0'') = Some \<lparr>Defined = True, Value = 0\<rparr>"
      by (simp add: decodeChar_def)
    ultimately show ?thesis by simp
  next
    case 2
    then have "cellString c = [CHR ''1'']" "normCell c = \<lparr>Defined = True, Value = 1\<rparr>"
      using True by (simp_all add: cellString_def normCell_def showInt_01)
    moreover have "decodeChar (CHR ''1'') = Some \<lparr>Defined = True, Value = 1\<rparr>"
      by (simp add: decodeChar_def)
    ultimately show ?thesis by simp
  qed
qed

lemma decodeCells_append:
  "decodeCells xs = Some cs \<Longrightarrow> decodeCells ys = Some ds \<Longrightarrow> decodeCells (xs @ ys) = Some (cs @ ds)"
proof (induction xs arbitrary: cs)
  case Nil
  then show ?case by simp
next
  case (Cons x xs)
  then show ?case by (auto split: option.splits)
qed

lemma decodeCells_row:
  "validCells row \<Longrightarrow> decodeCells (concat (map cellString row)) = Some (map normCell row)
      \<and> length (concat (map cellString row)) = length row"
proof (induction row)
  case Nil
  then show ?case by simp
next
  case (Cons c row)
  then have v: "Defined c \<longrightarrow> Value c = 0 \<or> Value c = 1" and vr: "validCells row"
    by (simp_all add: validCells_def)
  from decodeChar_cellString[OF v] obtain ch where
    ch: "cellString c = [ch]" "decodeChar ch = Some (normCell c)" by blast
  from Cons.IH[OF vr] show ?case using ch by simp
qed

lemma decodeCells_rows:
  "list_all validCells rows \<Longrightarrow>
     decodeCells (concat (map (\<lambda>row. concat (map cellString row)) rows))
       = Some (concat (map (map normCell) rows))
     \<and> length (concat (map (\<lambda>row. concat (map cellString row)) rows)) = length (concat rows)"
proof (induction rows)
  case Nil
  then show ?case by simp
next
  case (Cons r rows)
  then have vr: "validCells r" and vrs: "list_all validCells rows" by simp_all
  from decodeCells_row[OF vr] Cons.IH[OF vrs] show ?case
    by (simp add: decodeCells_append)
qed

lemma length_concat_square:
  "\<forall>r\<in>set rows. length r = n \<Longrightarrow> length (concat rows) = length rows * n"
  by (induction rows) simp_all

lemma ToString_wf:
  "wfShape b \<Longrightarrow> ToString b = Some (concat (map (\<lambda>row. concat (map cellString row)) (Board b)))"
proof -
  assume wf: "wfShape b"
  then have len: "length (Board b) = Size b" and rows: "\<forall>r\<in>set (Board b). length r = Size b"
    by (simp_all add: wfShape_def list_all_iff)
  have t: "take (Size b) (Board b) = Board b" using len by simp
  have m: "map (\<lambda>row. concat (map cellString (take (Size b) row))) (Board b)
         = map (\<lambda>row. concat (map cellString row)) (Board b)"
    using rows by (intro map_cong) simp_all
  have ok: "Size b \<le> length (Board b) \<and> list_all (\<lambda>row. Size b \<le> length row) (take (Size b) (Board b))"
    using len rows by (simp add: list_all_iff t)
  show ?thesis unfolding ToString_def using ok by (simp add: t m)
qed

lemma codec_roundtrip_general:
  assumes wf: "wfBoard b" and n: "2 \<le> Size b"
  shows "\<exists>s. ToString b = Some s \<and>
           NewFromString s = Inr \<lparr>Size = Size b, Board = map (map normCell) (Board b)\<rparr>"
proof -
  let ?n = "Size b"
  let ?s = "concat (map (\<lambda>row. concat (map cellString row)) (Board b))"
  from wf have sh: "wfShape b" and vc: "list_all validCells (Board b)"
    by (simp_all add: wfBoard_def)
  from sh have len: "length (Board b) = ?n" and rows: "\<forall>r\<in>set (Board b). length r = ?n"
    by (simp_all add: wfShape_def list_all_iff)
  have ts: "ToString b = Some ?s" using sh by (rule ToString_wf)
  from decodeCells_rows[OF vc] have dc: "decodeCells ?s = Some (concat (map (map normCell) (Board b)))"
    and ls: "length ?s = length (concat (Board b))" by simp_all
  have l: "length ?s = ?n * ?n" using ls length_concat_square[OF rows] len by simp
  have "4 \<le> ?n * ?n" using n mult_le_mono[of 2 ?n 2 ?n] by simp
  then have l4: "\<not> length ?s < 4" using l by simp
  have sq: "isqrt (length ?s) = ?n" using l isqrt_square by simp
  have rows': "\<forall>r\<in>set (map (map normCell) (Board b)). length r = ?n" using rows by simp
  have ch: "map (\<lambda>line. take ?n (drop (line * ?n) (concat (map (map normCell) (Board b))))) [0..<?n]
          = map (map normCell) (Board b)"
    using chop_concat[OF rows'] len by simp
  have "NewFromString ?s = Inr \<lparr>Size = ?n, Board = map (map normCell) (Board b)\<rparr>"
    using l4 sq l dc ch by (simp add: NewFromString_def Let_def)
  with ts show ?thesis by blast
qed

lemma normCell_Defined [simp]: "Defined (normCell c) = Defined c"
  by (simp add: normCell_def zeroCell_def)

lemma normCell_Value: "Defined c \<Longrightarrow> Value (normCell c) = Value c"
  by (simp add: normCell_def)

text \<open>
  Claim C2.  For a well-formed board of even size at least 4, \<open>ToString\<close> returns a
  string that \<open>NewFromString\<close> decodes without error into a board of the same size
  whose cells have the same defined flag as in the board and, where defined, the same
  value.
\<close>

theorem codec_roundtrip:
  assumes "wfBoard b" and "even (Size b)" and "4 \<le> Size b"
  shows "\<exists>s t. ToString b = Some s \<and> NewFromString s = Inr t \<and> Size t = Size b \<and>
           (\<forall>r<Size b. \<forall>c<Size b.
              Defined (Board t ! r ! c) = Defined (Board b ! r ! c) \<and>
              (Defined (Board b ! r ! c) \<longrightarrow> Value (Board t ! r ! c) = Value (Board b ! r ! c)))"
proof -
  from assms(3) have "2 \<le> Size b" by simp
  from codec_roundtrip_general[OF assms(1) this] obtain s where
    s: "ToString b = Some s"
       "NewFromString s = Inr \<lparr>Size = Size b, Board = map (map normCell) (Board b)\<rparr>" by blast
  let ?t = "\<lparr>Size = Size b, Board = map (map normCell) (Board b)\<rparr>"
  from assms(1) have len: "length (Board b) = Size b"
    and rows: "\<forall>r<Size b. length (Board b ! r) = Size b"
    by (simp_all add: wfBoard_def wfShape_def list_all_length)
  have cell: "Board ?t ! r ! c = normCell (Board b ! r ! c)" if "r < Size b" "c < Size b" for r c
    using that len rows by simp
  have "\<forall>r<Size b. \<forall>c<Size b.
              Defined (Board ?t ! r ! c) = Defined (Board b ! r ! c) \<and>
              (Defined (Board b ! r ! c) \<longrightarrow> Value (Board ?t ! r ! c) = Value (Board b ! r ! c))"
    using cell by (simp add: normCell_Value)
  moreover have "Size ?t = Size b" by simp
  ultimately show ?thesis using s by blast
qed

lemma ex4_wfBoard: "wfBoard exampleBoard4"
  by (simp add: wfBoard_def wfShape_def exampleBoard4_def validCells_def)

theorem codec_roundtrip_witness:
  "wfBoard exampleBoard4 \<and> even (Size exampleBoard4) \<and> 4 \<le> Size exampleBoard4 \<and>
   (\<exists>s t. ToString exampleBoard4 = Some s \<and> NewFromString s = Inr t \<and> Size t = 4 \<and>
        Defined (Board t ! 0 ! 0) \<and> Value (Board t ! 0 ! 1) = 1)"
proof -
  have e: "even (Size exampleBoard4)" and g: "4 \<le> Size exampleBoard4"
    by (simp_all add: exampleBoard4_def)
  from codec_roundtrip[OF ex4_wfBoard e g] obtain s t where
    st: "ToString exampleBoard4 = Some s" "NewFromString s = Inr t" "Size t = Size exampleBoard4"
    and cells: "\<forall>r<Size exampleBoard4. \<forall>c<Size exampleBoard4.
              Defined (Board t ! r ! c) = Defined (Board exampleBoard4 ! r ! c) \<and>
              (Defined (Board exampleBoard4 ! r ! c) \<longrightarrow>
                 Value (Board t ! r ! c) = Value (Board exampleBoard4 ! r ! c))"
    by blast
  have sz: "Size exampleBoard4 = 4" by (simp add: exampleBoard4_def)
  from cells have "Defined (Board t ! 0 ! 0) = Defined (Board exampleBoard4 ! 0 ! 0)"
    unfolding sz by simp
  then have d: "Defined (Board t ! 0 ! 0)" by (simp add: exampleBoard4_def)
  from cells have "Defined (Board exampleBoard4 ! 0 ! 1) \<longrightarrow>
                 Value (Board t ! 0 ! 1) = Value (Board exampleBoard4 ! 0 ! 1)"
    unfolding sz by simp
  then have v: "Value (Board t ! 0 ! 1) = 1" by (simp add: exampleBoard4_def)
  from st d v sz have "\<exists>s t. ToString exampleBoard4 = Some s \<and> NewFromString s = Inr t \<and> Size t = 4 \<and>
        Defined (Board t ! 0 ! 0) \<and> Value (Board t ! 0 ! 1) = 1" by auto
  with ex4_wfBoard e g show ?thesis by blast
qed

lemma isqrt_14: "isqrt 14 = 3"
  by (simp add: isqrt_def eval_nat_numeral)

lemma isqrt_5: "isqrt 5 = 2"
  by (simp add: isqrt_def eval_nat_numeral)

lemma isqrt_16: "isqrt 16 = 4"
  using isqrt_square[of 4] by simp

lemma NewFromString_bad_length:
  "length s = n \<Longrightarrow> isqrt n * isqrt n \<noteq> n \<Longrightarrow> NewFromString s = Inl ''bad string length''"
  by (simp add: NewFromString_def Let_def)

lemma NewFromString_invalid_char:
  "length s = n \<Longrightarrow> 4 \<le> n \<Longrightarrow> isqrt n * isqrt n = n \<Longrightarrow> decodeCells s = None \<Longrightarrow>
     NewFromString s = Inl ''invalid char in string''"
  by (simp add: NewFromString_def Let_def)

lemma decodeCells_invalid:
  "ch \<in> set s \<Longrightarrow> decodeChar ch = None \<Longrightarrow> decodeCells s = None"
  by (induction s) (auto split: option.splits)

lemma NewFromString_invalid_general:
  assumes "length s = n * n" "2 \<le> n" "ch \<in> set s" "decodeChar ch = None"
  shows "NewFromString s = Inl ''invalid char in string''"
proof (rule NewFromString_invalid_char[OF assms(1)])
  have "2 * 2 \<le> n * n" using assms(2) assms(2) by (rule mult_le_mono)
  then show "4 \<le> n * n" by simp
  show "isqrt (n * n) * isqrt (n * n) = n * n" by (simp add: isqrt_square)
  show "decodeCells s = None" using assms(3,4) by (rule decodeCells_invalid)
qed

text \<open>
  Claim C8 fails as stated: the string of scenario S4 has 14 characters, which is not a
  square, so its decoding stops at the length test before any character is read.
\<close>

theorem NewFromString_S4_counterexample:
  "NewFromString ''...A..........'' = Inl ''bad string length''"
  by (rule NewFromString_bad_length[where n = 14]) (simp_all add: isqrt_14)

text \<open>
  Claim C8, amended.  Decoding the 14-character string fails with "bad string length";
  decoding any string of length \<open>n * n\<close>, \<open>n\<close> at least 2, that holds the character \<open>A\<close>
  fails with "invalid char in string", as does the same string padded to 16 characters;
  decoding any 5-character string fails with "bad string length".
\<close>

theorem NewFromString_errors:
  "NewFromString ''...A..........'' = Inl ''bad string length'' \<and>
   (\<forall>s n. length s = n * n \<and> 2 \<le> n \<and> CHR ''A'' \<in> set s \<longrightarrow>
      NewFromString s = Inl ''invalid char in string'') \<and>
   NewFromString ''...A............'' = Inl ''invalid char in string'' \<and>
   (\<forall>s. length s = 5 \<longrightarrow> NewFromString s = Inl ''bad string length'')"
proof (intro conjI allI impI)
  show "NewFromString ''...A..........'' = Inl ''bad string length''"
    by (rule NewFromString_bad_length[where n = 14]) (simp_all add: isqrt_14)
  show "NewFromString ''...A............'' = Inl ''invalid char in string''"
    by (rule NewFromString_invalid_char[where n = 16])
       (simp_all add: isqrt_16 decodeChar_def zeroCell_def)
next
  fix s :: string and n :: nat
  assume a: "length s = n * n \<and> 2 \<le> n \<and> CHR ''A'' \<in> set s"
  have "decodeChar CHR ''A'' = None" by (simp add: decodeChar_def)
  with a show "NewFromString s = Inl ''invalid char in string''"
    by (auto intro: NewFromString_invalid_general)
next
  fix s :: string assume "length s = 5"
  then show "NewFromString s = Inl ''bad string length''"
    by (rule NewFromString_bad_length) (simp add: isqrt_5)
qed

theorem NewFromString_errors_witness:
  "length ''.A..'' = 2 * 2 \<and> (2::nat) \<le> 2 \<and> CHR ''A'' \<in> set ''.A..'' \<and>
   NewFromString ''.A..'' = Inl ''invalid char in string'' \<and>
   length ''01.10'' = 5 \<and> NewFromString ''01.10'' = Inl ''bad string length''"
proof -
  have h: "length ''.A..'' = 2 * 2 \<and> (2::nat) \<le> 2 \<and> CHR ''A'' \<in> set ''.A..''" by simp
  have l: "length ''01.10'' = 5" by simp
  from NewFromString_errors
  have g: "\<forall>s n. length s = n * n \<and> 2 \<le> n \<and> CHR ''A'' \<in> set s \<longrightarrow>
      NewFromString s = Inl ''invalid char in string''"
    and b: "\<forall>s. length s = 5 \<longrightarrow> NewFromString s = Inl ''bad string length''"
    by blast+
  from g h have r1: "NewFromString ''.A..'' = Inl ''invalid char in string''" by blast
  from b l have r2: "NewFromString ''01.10'' = Inl ''bad string length''" by blast
  from h l r1 r2 show ?thesis by blast
qed

section \<open>Copies and cell updates (takuzu.go)\<close>

text \<open>
  \<open>Clone\<close> allocates \<open>New(b.Size)\<close> and copies every cell of \<open>b.Board\<close> into it.  The
  write \<open>c.Board[line][col]\<close> panics when a row with a cell lies at or beyond \<open>Size\<close>,
  or is longer than \<open>Size\<close>; the cells of the new board that \<open>b\<close> does not have stay zero.
\<close>

definition Clone :: "Takuzu \<Rightarrow> Takuzu option" where
  "Clone b =
     (if list_all (\<lambda>(line, row). row = [] \<or> (line < Size b \<and> length row \<le> Size b))
           (zip [0..<length (Board b)] (Board b))
      then Some \<lparr>Size = Size b,
                 Board = map (\<lambda>line.
                           if line < length (Board b)
                           then Board b ! line @ replicate (Size b - length (Board b ! line)) zeroCell
                           else replicate (Size b) zeroCell) [0..<Size b]\<rparr>
      else None)"

text \<open>
  \<open>Copy(src, dst)\<close> returns the error \<open>"sizes do not match"\<close> and leaves \<open>dst\<close> alone
  when the sizes differ; else it writes every cell of \<open>src\<close> over \<open>dst\<close>, and panics when
  \<open>dst\<close> lacks one of them.  The result is the returned error and the board \<open>dst\<close>
  afterwards.
\<close>

definition Copy :: "Takuzu \<Rightarrow> Takuzu \<Rightarrow> (string option \<times> Takuzu) option" where
  "Copy src dst =
     (if Size src \<noteq> Size dst then Some (Some ''sizes do not match'', dst)
      else if list_all (\<lambda>(line, row). row = [] \<or>
                  (line < length (Board dst) \<and> length row \<le> length (Board dst ! line)))
                (zip [0..<length (Board src)] (Board src))
      then Some (None,
             dst\<lparr>Board := map (\<lambda>(line, drow).
                        if line < length (Board src)
                        then Board src ! line @ drop (length (Board src ! line)) drow
                        else drow) (zip [0..<length (Board dst)] (Board dst))\<rparr>)
      else None)"

text \<open>
  \<open>Set\<close>: a value other than 0 and 1 clears the \<open>Defined\<close> flag and keeps the stored
  value.
\<close>

definition SetCell :: "Cell \<Rightarrow> int \<Rightarrow> Cell" where
  "SetCell c v = (if v \<noteq> 0 \<and> v \<noteq> 1 then c\<lparr>Defined := False\<rparr> else \<lparr>Defined = True, Value = v\<rparr>)"

definition Set :: "Takuzu \<Rightarrow> nat \<Rightarrow> nat \<Rightarrow> int \<Rightarrow> Takuzu option" where
  "Set b l c v =
     (if l < length (Board b) \<and> c < length (Board b ! l)
      then Some (b\<lparr>Board := (Board b)[l := (Board b ! l)[c := SetCell (Board b ! l ! c) v]]\<rparr>)
      else None)"

section \<open>Trivial deduction\<close>

text \<open>
  \<open>fillRange\<close>, the closure of \<open>FillLineColumn\<close>.  Its first loop counts the defined
  zeros and ones (\<open>n[r[x].Value]++\<close> panics on any other value) and notes whether a cell
  is undefined.
\<close>

fun fillRange_count :: "Cell list \<Rightarrow> bool \<times> nat \<times> nat \<Rightarrow> (bool \<times> nat \<times> nat) option" where
  "fillRange_count [] st = Some st"
| "fillRange_count (x # xs) (notFull, n0, n1) =
     (if Defined x then
        (if Value x = 0 then fillRange_count xs (notFull, n0 + 1, n1)
         else if Value x = 1 then fillRange_count xs (notFull, n0, n1 + 1)
         else None)
      else fillRange_count xs (True, n0, n1))"

definition fillUndefined :: "int \<Rightarrow> Cell \<Rightarrow> Cell" where
  "fillUndefined v x = (if \<not> Defined x then \<lparr>Defined = True, Value = v\<rparr> else x)"

definition fillRange :: "Cell list \<Rightarrow> Cell list option" where
  "fillRange r =
     (case fillRange_count r (False, 0, 0) of
        None \<Rightarrow> None
      | Some (notFull, n0, n1) \<Rightarrow>
          if \<not> notFull then Some r
          else if n0 = length r div 2 then Some (map (fillUndefined 1) r)
          else if n1 = length r div 2 then Some (map (fillUndefined 0) r)
          else Some r)"

text \<open>
  \<open>FillLineColumn(l, c)\<close> runs \<open>fillRange\<close> on the pointers to the cells of line \<open>l\<close>, then
  on the pointers to the cells of column \<open>c\<close> of the board so updated.
  \<open>GetLinePointers\<close> and \<open>GetColumnPointers\<close> allocate \<open>Size\<close> pointers: they panic when
  the line is longer, or the board has more rows, than \<open>Size\<close>, and leave \<open>nil\<close>, which
  \<open>fillRange\<close> dereferences, when it is shorter.
\<close>

definition FillLineColumn :: "Takuzu \<Rightarrow> nat \<Rightarrow> nat \<Rightarrow> Takuzu option" where
  "FillLineColumn b l c =
     (if \<not> (l < length (Board b) \<and> length (Board b ! l) = Size b) then None
      else
        (case fillRange (Board b ! l) of
           None \<Rightarrow> None
         | Some row' \<Rightarrow>
             let b1 = b\<lparr>Board := (Board b)[l := row']\<rparr> in
             if \<not> (length (Board b1) = Size b1 \<and> list_all (\<lambda>row. c < length row) (Board b1))
             then None
             else
               (case fillRange (map (\<lambda>row. row ! c) (Board b1)) of
                  None \<Rightarrow> None
                | Some col' \<Rightarrow>
                    Some (b1\<lparr>Board := map (\<lambda>(row, x). row[c := x]) (zip (Board b1) col')\<rparr>))))"

text \<open>
  The test \<open>bx.CheckLine(l) != nil || bx.CheckColumn(c) != nil\<close>; the column is checked
  only when the line passes.
\<close>

definition lineOrColumnFails :: "Takuzu \<Rightarrow> nat \<Rightarrow> nat \<Rightarrow> bool option" where
  "lineOrColumnFails bx l c =
     (case CheckLine bx l of
        None \<Rightarrow> None
      | Some (Some e) \<Rightarrow> Some True
      | Some None \<Rightarrow>
          (case CheckColumn bx c of
             None \<Rightarrow> None
           | Some (Some e) \<Rightarrow> Some True
           | Some None \<Rightarrow> Some False))"

text \<open>\<open>guessPos\<close>; \<open>Copy(&b, &bx)\<close> drops the error of \<open>Copy\<close>.\<close>

definition guessPos :: "Takuzu \<Rightarrow> nat \<Rightarrow> nat \<Rightarrow> int option" where
  "guessPos b l c =
     (if \<not> (l < length (Board b) \<and> c < length (Board b ! l)) then None
      else if Defined (Board b ! l ! c) then Some (Value (Board b ! l ! c))
      else
        (case Clone b of None \<Rightarrow> None | Some bx \<Rightarrow>
         (case Set bx l c 0 of None \<Rightarrow> None | Some bx \<Rightarrow>
          (case FillLineColumn bx l c of None \<Rightarrow> None | Some bx \<Rightarrow>
           (case lineOrColumnFails bx l c of None \<Rightarrow> None
            | Some True \<Rightarrow> Some 1
            | Some False \<Rightarrow>
               (case Copy b bx of None \<Rightarrow> None | Some (err, bx) \<Rightarrow>
                (case Set bx l c 1 of None \<Rightarrow> None | Some bx \<Rightarrow>
                 (case FillLineColumn bx l c of None \<Rightarrow> None | Some bx \<Rightarrow>
                  (case lineOrColumnFails bx l c of None \<Rightarrow> None
                   | Some True \<Rightarrow> Some 0
                   | Some False \<Rightarrow> Some (- 1))))))))))"

text \<open>
  \<open>trySolveTrivialPass\<close>: the two loops visit the positions in row-major order; the
  state is the board and \<open>changed\<close>.
\<close>

fun trySolveTrivialPass_loop ::
  "(nat \<times> nat) list \<Rightarrow> Takuzu \<times> bool \<Rightarrow> (Takuzu \<times> bool) option" where
  "trySolveTrivialPass_loop [] (b, changed) = Some (b, changed)"
| "trySolveTrivialPass_loop ((line, col) # rest) (b, changed) =
     (if \<not> (line < length (Board b) \<and> col < length (Board b ! line)) then None
      else if Defined (Board b ! line ! col) then trySolveTrivialPass_loop rest (b, changed)
      else
        (case guessPos b line col of
           None \<Rightarrow> None
         | Some guess \<Rightarrow>
             if guess \<noteq> - 1 then
               (case Set b line col guess of
                  None \<Rightarrow> None
                | Some b' \<Rightarrow> trySolveTrivialPass_loop rest (b', True))
             else trySolveTrivialPass_loop rest (b, changed)))"

definition trySolveTrivialPass :: "Takuzu \<Rightarrow> (Takuzu \<times> bool) option" where
  "trySolveTrivialPass b =
     trySolveTrivialPass_loop (List.product [0..<Size b] [0..<Size b]) (b, False)"


subsection \<open>Progress of a pass\<close>

text \<open>
  The cell at \<open>(l, c)\<close> exists and is defined.  \<open>undefCount\<close> counts the positions
  \<open>(l, c)\<close> with \<open>l, c < Size\<close> where that is not so; every commit of a pass lowers it.
\<close>

definition defAt :: "Takuzu \<Rightarrow> nat \<Rightarrow> nat \<Rightarrow> bool" where
  "defAt b l c = (l < length (Board b) \<and> c < length (Board b ! l) \<and> Defined (Board b ! l ! c))"

definition positions :: "nat \<Rightarrow> (nat \<times> nat) list" where
  "positions n = List.product [0..<n] [0..<n]"

definition undefCount :: "Takuzu \<Rightarrow> nat" where
  "undefCount b = length (filter (\<lambda>(l, c). \<not> defAt b l c) (positions (Size b)))"

lemma filter_length_le:
  "(\<forall>x\<in>set xs. P' x \<longrightarrow> P x) \<Longrightarrow> length (filter P' xs) \<le> length (filter P xs)"
  by (induction xs) auto

lemma filter_length_less:
  "(\<forall>x\<in>set xs. P' x \<longrightarrow> P x) \<Longrightarrow> x \<in> set xs \<Longrightarrow> P x \<Longrightarrow> \<not> P' x \<Longrightarrow>
     length (filter P' xs) < length (filter P xs)"
proof (induction xs)
  case Nil
  then show ?case by simp
next
  case (Cons y ys)
  have le: "length (filter P' ys) \<le> length (filter P ys)"
    using Cons.prems(1) by (intro filter_length_le) simp
  show ?case
  proof (cases "x = y")
    case True
    then show ?thesis using Cons.prems le by simp
  next
    case False
    then have "length (filter P' ys) < length (filter P ys)"
      using Cons by simp
    then show ?thesis using Cons.prems(1) by auto
  qed
qed

lemma undefCount_le:
  "Size b' = Size b \<Longrightarrow> (\<And>l c. l < Size b \<Longrightarrow> c < Size b \<Longrightarrow> defAt b l c \<Longrightarrow> defAt b' l c) \<Longrightarrow>
     undefCount b' \<le> undefCount b"
  unfolding undefCount_def by (auto intro!: filter_length_le simp: positions_def)

lemma undefCount_less:
  "Size b' = Size b \<Longrightarrow> (\<And>l c. l < Size b \<Longrightarrow> c < Size b \<Longrightarrow> defAt b l c \<Longrightarrow> defAt b' l c) \<Longrightarrow>
   l < Size b \<Longrightarrow> c < Size b \<Longrightarrow> \<not> defAt b l c \<Longrightarrow> defAt b' l c \<Longrightarrow>
     undefCount b' < undefCount b"
proof -
  assume sz: "Size b' = Size b"
    and mono: "\<And>l c. l < Size b \<Longrightarrow> c < Size b \<Longrightarrow> defAt b l c \<Longrightarrow> defAt b' l c"
    and l: "l < Size b" and c: "c < Size b" and nd: "\<not> defAt b l c" and d: "defAt b' l c"
  have "length (filter (\<lambda>(l, c). \<not> defAt b' l c) (positions (Size b)))
      < length (filter (\<lambda>(l, c). \<not> defAt b l c) (positions (Size b)))"
  proof (rule filter_length_less[where x = "(l, c)"])
    show "\<forall>x\<in>set (positions (Size b)).
            (case x of (l, c) \<Rightarrow> \<not> defAt b' l c) \<longrightarrow> (case x of (l, c) \<Rightarrow> \<not> defAt b l c)"
      using mono by (auto simp: positions_def)
    show "(l, c) \<in> set (positions (Size b))" using l c by (simp add: positions_def)
    show "case (l, c) of (l, c) \<Rightarrow> \<not> defAt b l c" using nd by simp
    show "\<not> (case (l, c) of (l, c) \<Rightarrow> \<not> defAt b' l c)" using d by simp
  qed
  then show ?thesis unfolding undefCount_def sz .
qed

text \<open>
  \<open>extends b b'\<close>: \<open>b'\<close> has the size of \<open>b\<close> and every defined cell of \<open>b\<close>, with its
  value.
\<close>

definition extends :: "Takuzu \<Rightarrow> Takuzu \<Rightarrow> bool" where
  "extends b b' =
     (Size b' = Size b \<and>
      (\<forall>l c. defAt b l c \<longrightarrow> defAt b' l c \<and> Value (Board b' ! l ! c) = Value (Board b ! l ! c)))"

lemma extends_refl [simp]: "extends b b"
  by (simp add: extends_def)

lemma extends_trans: "extends a b \<Longrightarrow> extends b c \<Longrightarrow> extends a c"
  by (simp add: extends_def)

lemma extends_Size: "extends b b' \<Longrightarrow> Size b' = Size b"
  by (simp add: extends_def)

lemma extends_undefCount: "extends b b' \<Longrightarrow> undefCount b' \<le> undefCount b"
  by (rule undefCount_le) (auto simp: extends_def)

lemma Set_Size: "Set b l c v = Some b' \<Longrightarrow> Size b' = Size b"
  by (auto simp: Set_def split: if_splits)

lemma Set_length: "Set b l c v = Some b' \<Longrightarrow> length (Board b') = length (Board b)"
  by (auto simp: Set_def split: if_splits)

lemma Set_row_length:
  "Set b l c v = Some b' \<Longrightarrow> length (Board b' ! l') = length (Board b ! l')"
  by (cases "l' = l") (auto simp: Set_def split: if_splits)

lemma Set_cell:
  "Set b l c v = Some b' \<Longrightarrow>
     Board b' ! l' ! c' = (if l' = l \<and> c' = c then SetCell (Board b ! l ! c) v else Board b ! l' ! c')"
  by (cases "l' = l"; cases "c' = c") (auto simp: Set_def split: if_splits)

lemma Set_defAt:
  "Set b l c v = Some b' \<Longrightarrow>
     defAt b' l' c' = (if l' = l \<and> c' = c then (v = 0 \<or> v = 1) else defAt b l' c')"
  unfolding defAt_def
  by (frule Set_length, frule Set_row_length[where l' = l'], frule Set_cell[where l' = l' and c' = c'])
     (auto simp: SetCell_def Set_def split: if_splits)

lemma guessPos_range:
  "guessPos b l c = Some g \<Longrightarrow> \<not> defAt b l c \<Longrightarrow> g = 1 \<or> g = 0 \<or> g = - 1"
  unfolding guessPos_def defAt_def
  by (auto split: if_splits option.splits bool.splits prod.splits)

lemma Set_extends:
  assumes "Set b l c v = Some b'" "\<not> defAt b l c"
  shows "extends b b'"
  unfolding extends_def
proof (intro conjI allI impI)
  show "Size b' = Size b" using assms(1) by (rule Set_Size)
  fix l' c' assume d: "defAt b l' c'"
  then have ne: "\<not> (l' = l \<and> c' = c)" using assms(2) by auto
  show "defAt b' l' c'" using Set_defAt[OF assms(1), of l' c'] ne d by simp
  show "Value (Board b' ! l' ! c') = Value (Board b ! l' ! c')"
    using Set_cell[OF assms(1), of l' c'] ne by simp
qed

lemma pass_loop_props:
  "trySolveTrivialPass_loop ps (b, ch) = Some (b', ch') \<Longrightarrow> \<forall>p\<in>set ps. fst p < Size b \<and> snd p < Size b \<Longrightarrow>
     extends b b' \<and> (ch \<longrightarrow> ch') \<and>
     (\<not> ch' \<longrightarrow> b' = b) \<and> (ch' \<and> \<not> ch \<longrightarrow> undefCount b' < undefCount b)"
proof (induction ps arbitrary: b ch)
  case Nil
  then show ?case by simp
next
  case (Cons p ps)
  obtain line col where p: "p = (line, col)" by (cases p)
  have rng: "line < Size b" "col < Size b" using Cons.prems(2) p by simp_all
  have inr: "line < length (Board b) \<and> col < length (Board b ! line)"
    using Cons.prems(1) p by (auto split: if_splits)
  show ?case
  proof (cases "Defined (Board b ! line ! col)")
    case True
    then have "trySolveTrivialPass_loop ps (b, ch) = Some (b', ch')"
      using Cons.prems(1) p inr by simp
    from Cons.IH[OF this] Cons.prems(2) show ?thesis by simp
  next
    case False
    then have nd: "\<not> defAt b line col" by (simp add: defAt_def)
    from Cons.prems(1) p inr False obtain guess where g: "guessPos b line col = Some guess"
      by (auto split: option.splits)
    show ?thesis
    proof (cases "guess = - 1")
      case True
      then have "trySolveTrivialPass_loop ps (b, ch) = Some (b', ch')"
        using Cons.prems(1) p inr False g by simp
      from Cons.IH[OF this] Cons.prems(2) show ?thesis by simp
    next
      case ng: False
      with guessPos_range[OF g nd] have g01: "guess = 0 \<or> guess = 1" by auto
      from Cons.prems(1) p inr False g ng obtain b1 where
        s: "Set b line col guess = Some b1" and
        r: "trySolveTrivialPass_loop ps (b1, True) = Some (b', ch')"
        by (auto split: option.splits)
      have sz: "Size b1 = Size b" using s by (rule Set_Size)
      have e1: "extends b b1" using s nd by (rule Set_extends)
      have d1: "defAt b1 line col" using Set_defAt[OF s, of line col] g01 by simp
      have lt1: "undefCount b1 < undefCount b"
        using undefCount_less[OF sz _ rng nd d1] e1 by (simp add: extends_def)
      from Cons.IH[OF r] Cons.prems(2) sz
      have ih: "extends b1 b'" "ch'"
        by simp_all
      have le: "undefCount b' \<le> undefCount b1"
        using ih(1) by (rule extends_undefCount)
      show ?thesis using ih extends_trans[OF e1 ih(1)] lt1 le by auto
    qed
  qed
qed

lemma trySolveTrivialPass_props:
  assumes "trySolveTrivialPass b = Some (b', ch)"
  shows "extends b b'" "\<not> ch \<Longrightarrow> b' = b" "ch \<Longrightarrow> undefCount b' < undefCount b"
proof -
  have "\<forall>p\<in>set (List.product [0..<Size b] [0..<Size b]). fst p < Size b \<and> snd p < Size b"
    by auto
  from pass_loop_props[OF assms[unfolded trySolveTrivialPass_def] this]
  show "extends b b'" "\<not> ch \<Longrightarrow> b' = b" "ch \<Longrightarrow> undefCount b' < undefCount b"
    by auto
qed

text \<open>
  \<open>TrySolveTrivial\<close>: passes until one changes nothing, then \<open>Validate\<close>.  The result is
  the board afterwards, the boolean and the error of \<open>Validate\<close> (which the source
  wraps with \<open>"the takuzu looks wrong"\<close>).
\<close>

function TrySolveTrivial :: "Takuzu \<Rightarrow> (Takuzu \<times> bool \<times> validationError option) option" where
  "TrySolveTrivial b =
     (case trySolveTrivialPass b of
        None \<Rightarrow> None
      | Some (b', changed) \<Rightarrow>
          if changed then TrySolveTrivial b'
          else (case Validate b' of
                  None \<Rightarrow> None
                | Some (full, err) \<Rightarrow> Some (b', full, err)))"
  by pat_completeness auto
termination
  by (relation "measure undefCount") (auto dest: trySolveTrivialPass_props(3))

declare TrySolveTrivial.simps [simp del]

subsection \<open>The deducer on well-formed boards\<close>

lemma wfShape_length: "wfShape b \<Longrightarrow> length (Board b) = Size b"
  by (simp add: wfShape_def)

lemma wfShape_row: "wfShape b \<Longrightarrow> l < Size b \<Longrightarrow> length (Board b ! l) = Size b"
  by (simp add: wfShape_def list_all_length)

lemma wfBoard_shape: "wfBoard b \<Longrightarrow> wfShape b"
  by (simp add: wfBoard_def)

lemma wfBoard_row_valid: "wfBoard b \<Longrightarrow> l < Size b \<Longrightarrow> validCells (rowOf b l)"
  by (simp add: wfBoard_def wfShape_def rowOf_def list_all_length)

lemma wfBoard_col_valid: "wfBoard b \<Longrightarrow> c < Size b \<Longrightarrow> validCells (colOf b c)"
  unfolding wfBoard_def wfShape_def colOf_def validCells_def list_all_length
  by simp

lemma Takuzu_eqI: "Size a = Size b \<Longrightarrow> Board a = Board b \<Longrightarrow> a = (b :: Takuzu)"
  by (cases a, cases b) simp

lemma Clone_wf: "wfShape b \<Longrightarrow> Clone b = Some b"
proof -
  assume wf: "wfShape b"
  note len = wfShape_length[OF wf]
  have ok: "list_all (\<lambda>(line, row). row = [] \<or> (line < Size b \<and> length row \<le> Size b))
           (zip [0..<length (Board b)] (Board b))"
    using wf len by (auto simp: list_all_length wfShape_def)
  have "map (\<lambda>line. if line < length (Board b)
                           then Board b ! line @ replicate (Size b - length (Board b ! line)) zeroCell
                           else replicate (Size b) zeroCell) [0..<Size b] = Board b"
    using len wfShape_row[OF wf] by (intro nth_equalityI) simp_all
  then show ?thesis using ok unfolding Clone_def by (auto intro: Takuzu_eqI)
qed

lemma Copy_wf:
  "wfShape src \<Longrightarrow> wfShape dst \<Longrightarrow> Size src = Size dst \<Longrightarrow> Copy src dst = Some (None, src)"
proof -
  assume ws: "wfShape src" and wd: "wfShape dst" and sz: "Size src = Size dst"
  note ls = wfShape_length[OF ws] and ld = wfShape_length[OF wd]
  have ok: "list_all (\<lambda>(line, row). row = [] \<or>
                  (line < length (Board dst) \<and> length row \<le> length (Board dst ! line)))
                (zip [0..<length (Board src)] (Board src))"
    using ls ld sz wfShape_row[OF ws] wfShape_row[OF wd] by (auto simp: list_all_length)
  have "map (\<lambda>(line, drow).
                        if line < length (Board src)
                        then Board src ! line @ drop (length (Board src ! line)) drow
                        else drow) (zip [0..<length (Board dst)] (Board dst)) = Board src"
    using ls ld sz wfShape_row[OF ws] wfShape_row[OF wd] by (intro nth_equalityI) simp_all
  then show ?thesis using ok sz unfolding Copy_def by (auto intro: Takuzu_eqI)
qed

text \<open>Setting a cell, as a function on well-formed boards.\<close>

definition setAt :: "Takuzu \<Rightarrow> nat \<Rightarrow> nat \<Rightarrow> int \<Rightarrow> Takuzu" where
  "setAt b l c v = b\<lparr>Board := (Board b)[l := (Board b ! l)[c := SetCell (Board b ! l ! c) v]]\<rparr>"

lemma Set_wf: "wfShape b \<Longrightarrow> l < Size b \<Longrightarrow> c < Size b \<Longrightarrow> Set b l c v = Some (setAt b l c v)"
  by (simp add: Set_def setAt_def wfShape_length wfShape_row)

lemma setAt_Size [simp]: "Size (setAt b l c v) = Size b"
  by (simp add: setAt_def)

lemma list_all_update: "list_all P xs \<Longrightarrow> P y \<Longrightarrow> list_all P (xs[i := y])"
  by (induction xs arbitrary: i) (auto split: nat.splits)

lemma wfShape_setAt: "wfShape b \<Longrightarrow> wfShape (setAt b l c v)"
proof -
  assume wf: "wfShape b"
  show ?thesis
  proof (cases "l < length (Board b)")
    case True
    then have "length ((Board b ! l)[c := SetCell (Board b ! l ! c) v]) = Size b"
      using wf by (simp add: wfShape_def list_all_length)
    then show ?thesis using wf unfolding wfShape_def setAt_def
      by (simp add: list_all_update)
  next
    case False
    then show ?thesis using wf by (simp add: wfShape_def setAt_def list_update_beyond)
  qed
qed

lemma validCells_update:
  "validCells row \<Longrightarrow> (Defined x \<longrightarrow> Value x = 0 \<or> Value x = 1) \<Longrightarrow> validCells (row[c := x])"
  unfolding validCells_def by (rule list_all_update)

lemma SetCell_valid: "Defined (SetCell x v) \<longrightarrow> Value (SetCell x v) = 0 \<or> Value (SetCell x v) = 1"
  by (auto simp: SetCell_def)

lemma wfBoard_setAt: "wfBoard b \<Longrightarrow> wfBoard (setAt b l c v)"
proof -
  assume wf: "wfBoard b"
  have sh: "wfShape (setAt b l c v)" using wf wfShape_setAt by (simp add: wfBoard_def)
  have "list_all validCells (Board (setAt b l c v))"
  proof (cases "l < length (Board b)")
    case True
    then have "validCells (Board b ! l)" using wf by (simp add: wfBoard_def list_all_length)
    then have "validCells ((Board b ! l)[c := SetCell (Board b ! l ! c) v])"
      using SetCell_valid by (rule validCells_update)
    then show ?thesis using wf unfolding wfBoard_def setAt_def
      by (simp add: list_all_update)
  next
    case False
    then show ?thesis using wf by (simp add: wfBoard_def setAt_def list_update_beyond)
  qed
  with sh show ?thesis by (simp add: wfBoard_def)
qed

text \<open>
  Line completion in the words of the specification: when the line has undefined
  cells and exactly half of its cells are defined zeros, the undefined cells become
  ones; else, when exactly half are defined ones, they become zeros.
\<close>

definition completeLine :: "Cell list \<Rightarrow> Cell list" where
  "completeLine r =
     (if allDefined r then r
      else if countValue 0 r = length r div 2 then map (fillUndefined 1) r
      else if countValue 1 r = length r div 2 then map (fillUndefined 0) r
      else r)"

lemma fillRange_count_valid:
  "validCells xs \<Longrightarrow>
     fillRange_count xs (nf, n0, n1) =
       Some (nf \<or> \<not> allDefined xs, n0 + countValue 0 xs, n1 + countValue 1 xs)"
proof (induction xs arbitrary: nf n0 n1)
  case Nil
  then show ?case by (simp add: allDefined_def countValue_def)
next
  case (Cons x xs)
  then have v: "Defined x \<longrightarrow> Value x = 0 \<or> Value x = 1" and vs: "validCells xs"
    by (simp_all add: validCells_def)
  show ?case using v Cons.IH[OF vs] by (auto simp: allDefined_def countValue_Cons)
qed

lemma fillRange_valid: "validCells r \<Longrightarrow> fillRange r = Some (completeLine r)"
  by (simp add: fillRange_def fillRange_count_valid completeLine_def)

lemma length_completeLine [simp]: "length (completeLine r) = length r"
  by (simp add: completeLine_def)

lemma validCells_completeLine: "validCells r \<Longrightarrow> validCells (completeLine r)"
  by (auto simp: completeLine_def validCells_def list_all_iff fillUndefined_def)

definition setRow :: "Takuzu \<Rightarrow> nat \<Rightarrow> Cell list \<Rightarrow> Takuzu" where
  "setRow b l r = b\<lparr>Board := (Board b)[l := r]\<rparr>"

definition setColumn :: "Takuzu \<Rightarrow> nat \<Rightarrow> Cell list \<Rightarrow> Takuzu" where
  "setColumn b c xs = b\<lparr>Board := map (\<lambda>(row, x). row[c := x]) (zip (Board b) xs)\<rparr>"

definition completeLineColumn :: "Takuzu \<Rightarrow> nat \<Rightarrow> nat \<Rightarrow> Takuzu" where
  "completeLineColumn b l c =
     (let b1 = setRow b l (completeLine (rowOf b l))
      in setColumn b1 c (completeLine (colOf b1 c)))"

lemma wfBoard_setRow:
  "wfBoard b \<Longrightarrow> length r = Size b \<Longrightarrow> validCells r \<Longrightarrow> wfBoard (setRow b l r)"
  unfolding wfBoard_def wfShape_def setRow_def
  by (simp add: list_all_update)

lemma wfBoard_setColumn:
  assumes "wfBoard b" "validCells xs" "length xs = Size b"
  shows "wfBoard (setColumn b c xs)"
proof -
  from assms(1) have len: "length (Board b) = Size b"
    and rows: "\<forall>i<Size b. length (Board b ! i) = Size b \<and> validCells (Board b ! i)"
    by (simp_all add: wfBoard_def wfShape_def list_all_length)
  from assms(2) have xs: "\<forall>i<length xs. Defined (xs ! i) \<longrightarrow> Value (xs ! i) = 0 \<or> Value (xs ! i) = 1"
    by (simp add: validCells_def list_all_length)
  have "length (Board (setColumn b c xs)) = Size b"
    using len assms(3) by (simp add: setColumn_def)
  moreover have "length (Board (setColumn b c xs) ! i) = Size b \<and> validCells (Board (setColumn b c xs) ! i)"
    if "i < Size b" for i
    using that len assms(3) rows xs by (simp add: setColumn_def validCells_update)
  moreover have "Size (setColumn b c xs) = Size b" by (simp add: setColumn_def)
  ultimately show ?thesis by (simp add: wfBoard_def wfShape_def list_all_length)
qed

lemma Size_completeLineColumn [simp]: "Size (completeLineColumn b l c) = Size b"
  by (simp add: completeLineColumn_def setRow_def setColumn_def Let_def)

lemma wfBoard_completeLineColumn:
  assumes "wfBoard b" "l < Size b" "c < Size b"
  shows "wfBoard (completeLineColumn b l c)"
proof -
  let ?b1 = "setRow b l (completeLine (rowOf b l))"
  have r: "validCells (rowOf b l)" using assms by (simp add: wfBoard_row_valid)
  have lr: "length (rowOf b l) = Size b"
    using assms by (simp add: rowOf_def wfShape_row wfBoard_shape)
  have wf1: "wfBoard ?b1"
    using assms(1) lr validCells_completeLine[OF r] by (intro wfBoard_setRow) simp_all
  have s1: "Size ?b1 = Size b" by (simp add: setRow_def)
  have c1: "validCells (colOf ?b1 c)" using wf1 assms(3) s1 by (simp add: wfBoard_col_valid)
  have lc: "length (colOf ?b1 c) = Size ?b1"
    using wf1 by (simp add: colOf_def wfBoard_def wfShape_def)
  show ?thesis unfolding completeLineColumn_def Let_def
    using wf1 validCells_completeLine[OF c1] lc by (intro wfBoard_setColumn) simp_all
qed

lemma FillLineColumn_wf:
  assumes "wfBoard b" "l < Size b" "c < Size b"
  shows "FillLineColumn b l c = Some (completeLineColumn b l c)"
proof -
  let ?b1 = "setRow b l (completeLine (rowOf b l))"
  note sh = wfBoard_shape[OF assms(1)]
  have g1: "l < length (Board b) \<and> length (Board b ! l) = Size b"
    using sh assms(2) by (simp add: wfShape_length wfShape_row)
  have r: "validCells (Board b ! l)" using wfBoard_row_valid[OF assms(1,2)] by (simp add: rowOf_def)
  have f1: "fillRange (Board b ! l) = Some (completeLine (rowOf b l))"
    using fillRange_valid[OF r] by (simp add: rowOf_def)
  have lr: "length (rowOf b l) = Size b" using g1 by (simp add: rowOf_def)
  have wf1: "wfBoard ?b1"
    using assms(1) lr validCells_completeLine r by (intro wfBoard_setRow) (simp_all add: rowOf_def)
  have b1: "b\<lparr>Board := (Board b)[l := completeLine (rowOf b l)]\<rparr> = ?b1" by (simp add: setRow_def)
  have s1: "Size ?b1 = Size b" by (simp add: setRow_def)
  have g2: "length (Board ?b1) = Size ?b1 \<and> list_all (\<lambda>row. c < length row) (Board ?b1)"
    using wf1 assms(3) s1 by (simp add: wfBoard_def wfShape_def list_all_length)
  have c1: "validCells (colOf ?b1 c)" using wf1 assms(3) s1 by (simp add: wfBoard_col_valid)
  have f2: "fillRange (map (\<lambda>row. row ! c) (Board ?b1)) = Some (completeLine (colOf ?b1 c))"
    using fillRange_valid[OF c1] by (simp add: colOf_def)
  show ?thesis
    unfolding FillLineColumn_def using g1 g2 f2
    by (simp add: f1 b1 Let_def completeLineColumn_def setColumn_def)
qed

text \<open>A line fails \<open>checkRange\<close>.\<close>

definition failsCheck :: "Cell list \<Rightarrow> bool" where
  "failsCheck cells = (case checkRange cells of Some (full, Some e) \<Rightarrow> True | _ \<Rightarrow> False)"

lemma checkRange_total: "validCells cells \<Longrightarrow> \<exists>full e. checkRange cells = Some (full, e)"
proof (cases "hasTriple cells")
  case False
  assume "validCells cells"
  from checkRange_char[OF this, of 0] False show ?thesis by auto
next
  case True
  assume v: "validCells cells"
  from True obtain i where "firstTriple cells i" unfolding hasTriple_firstTriple by blast
  with checkRange_char[OF v, of "Value (cells ! i)"] show ?thesis by blast
qed

lemma lineOrColumnFails_wf:
  assumes "wfBoard b" "l < Size b" "c < Size b"
  shows "lineOrColumnFails b l c = Some (failsCheck (rowOf b l) \<or> failsCheck (colOf b c))"
proof -
  note sh = wfBoard_shape[OF assms(1)]
  obtain f1 e1 where r: "checkRange (rowOf b l) = Some (f1, e1)"
    using checkRange_total[OF wfBoard_row_valid[OF assms(1,2)]] by blast
  obtain f2 e2 where k: "checkRange (colOf b c) = Some (f2, e2)"
    using checkRange_total[OF wfBoard_col_valid[OF assms(1,3)]] by blast
  have cl: "CheckLine b l = Some e1" using GetLine_wf[OF sh assms(2)] r by (simp add: CheckLine_def)
  have cc: "CheckColumn b c = Some e2" using GetColumn_wf[OF sh assms(3)] k by (simp add: CheckColumn_def)
  show ?thesis unfolding lineOrColumnFails_def cl cc failsCheck_def r k
    by (cases e1; cases e2) simp_all
qed

text \<open>
  Single-cell forcing in the words of the specification: the board after the cell is
  set to \<open>v\<close> and its row and column are completed, and whether that refutes \<open>v\<close>.
\<close>

definition trialBoard :: "Takuzu \<Rightarrow> nat \<Rightarrow> nat \<Rightarrow> int \<Rightarrow> Takuzu" where
  "trialBoard b l c v = completeLineColumn (setAt b l c v) l c"

definition refuted :: "Takuzu \<Rightarrow> nat \<Rightarrow> nat \<Rightarrow> int \<Rightarrow> bool" where
  "refuted b l c v =
     (failsCheck (rowOf (trialBoard b l c v) l) \<or> failsCheck (colOf (trialBoard b l c v) c))"

definition guessSpec :: "Takuzu \<Rightarrow> nat \<Rightarrow> nat \<Rightarrow> int" where
  "guessSpec b l c =
     (if Defined (Board b ! l ! c) then Value (Board b ! l ! c)
      else if refuted b l c 0 then 1
      else if refuted b l c 1 then 0
      else - 1)"

lemma guessPos_wf:
  assumes wf: "wfBoard b" and l: "l < Size b" and c: "c < Size b"
  shows "guessPos b l c = Some (guessSpec b l c)"
proof -
  note sh = wfBoard_shape[OF wf]
  have rng: "l < length (Board b) \<and> c < length (Board b ! l)"
    using sh l c by (simp add: wfShape_length wfShape_row)
  show ?thesis
  proof (cases "Defined (Board b ! l ! c)")
    case True
    then show ?thesis using rng by (simp add: guessPos_def guessSpec_def)
  next
    case False
    have step: "Set b l c v = Some (setAt b l c v)"
      "FillLineColumn (setAt b l c v) l c = Some (trialBoard b l c v)"
      "lineOrColumnFails (trialBoard b l c v) l c = Some (refuted b l c v)"
      "wfShape (trialBoard b l c v)" "Size (trialBoard b l c v) = Size b" for v
    proof -
      show "Set b l c v = Some (setAt b l c v)" using sh l c by (rule Set_wf)
      have w: "wfBoard (setAt b l c v)" using wf by (rule wfBoard_setAt)
      have l': "l < Size (setAt b l c v)" and c': "c < Size (setAt b l c v)" using l c by simp_all
      show "FillLineColumn (setAt b l c v) l c = Some (trialBoard b l c v)"
        unfolding trialBoard_def using w l' c' by (rule FillLineColumn_wf)
      have wt: "wfBoard (trialBoard b l c v)"
        unfolding trialBoard_def using w l' c' by (rule wfBoard_completeLineColumn)
      show st: "Size (trialBoard b l c v) = Size b" by (simp add: trialBoard_def)
      show "lineOrColumnFails (trialBoard b l c v) l c = Some (refuted b l c v)"
        unfolding refuted_def using wt l c st by (intro lineOrColumnFails_wf) simp_all
      show "wfShape (trialBoard b l c v)" using wt by (rule wfBoard_shape)
    qed
    have cp: "Copy b (trialBoard b l c 0) = Some (None, b)"
      using sh step(4)[of 0] step(5)[of 0] by (intro Copy_wf) simp_all
    show ?thesis
      unfolding guessPos_def guessSpec_def
      using rng False
      by (simp add: Clone_wf[OF sh] step(1,2,3) cp)
  qed
qed
lemma Validate_loop_total:
  assumes wf: "wfBoard b"
  shows "\<forall>i\<in>set is. i < Size b \<Longrightarrow> \<exists>r. Validate_loop b is st = Some r"
proof (induction "is" arbitrary: st)
  case Nil
  then show ?case by (cases st) auto
next
  case (Cons i rest)
  obtain fin lv cv where st: "st = (fin, lv, cv)" by (cases st)
  have i: "i < Size b" and rest: "\<forall>i\<in>set rest. i < Size b" using Cons.prems by simp_all
  note sh = wfBoard_shape[OF wf]
  note gl = GetLine_wf[OF sh i] and gc = GetColumn_wf[OF sh i]
  obtain f1 e1 where r: "checkRange (rowOf b i) = Some (f1, e1)"
    using checkRange_total[OF wfBoard_row_valid[OF wf i]] by blast
  obtain f2 e2 where k: "checkRange (colOf b i) = Some (f2, e2)"
    using checkRange_total[OF wfBoard_col_valid[OF wf i]] by blast
  note IH = Cons.IH[OF rest]
  show ?case
  proof (cases e1)
    case (Some a)
    then show ?thesis by (auto simp: st gl r)
  next
    case None
    note e1 = this
    show ?thesis
    proof (cases "f1 \<and> lv (computeVal (rowOf b i))")
      case True
      then show ?thesis by (auto simp: st gl r e1)
    next
      case False
      note nd = this
      show ?thesis
      proof (cases e2)
        case (Some a)
        then show ?thesis using nd by (auto simp: st gl r e1 gc k Let_def)
      next
        case None
        note e2 = this
        show ?thesis
        proof (cases "f2 \<and> cv (computeVal (colOf b i))")
          case True
          then show ?thesis using nd by (auto simp: st gl r e1 gc k e2 Let_def)
        next
          case False
          have "\<exists>st'. Validate_loop b (i # rest) st = Validate_loop b rest st'"
            using nd False by (auto simp: st gl r e1 gc k e2 Let_def)
          then show ?thesis using IH by auto
        qed
      qed
    qed
  qed
qed

lemma Validate_total: "wfBoard b \<Longrightarrow> \<exists>full err. Validate b = Some (full, err)"
  using Validate_loop_total[of b "[0..<Size b]"] by (auto simp: Validate_def)

lemma pass_loop_wf:
  "wfBoard b \<Longrightarrow> \<forall>p\<in>set ps. fst p < Size b \<and> snd p < Size b \<Longrightarrow>
     \<exists>b' ch'. trySolveTrivialPass_loop ps (b, ch) = Some (b', ch') \<and> wfBoard b'"
proof (induction ps arbitrary: b ch)
  case Nil
  then show ?case by simp
next
  case (Cons p ps)
  obtain line col where p: "p = (line, col)" by (cases p)
  have rng: "line < Size b" "col < Size b" using Cons.prems(2) p by simp_all
  note sh = wfBoard_shape[OF Cons.prems(1)]
  have inr: "line < length (Board b) \<and> col < length (Board b ! line)"
    using sh rng by (simp add: wfShape_length wfShape_row)
  have rest: "\<forall>p\<in>set ps. fst p < Size b \<and> snd p < Size b" using Cons.prems(2) by simp
  show ?case
  proof (cases "Defined (Board b ! line ! col)")
    case True
    then show ?thesis using Cons.IH[OF Cons.prems(1) rest] p inr by simp
  next
    case False
    note g = guessPos_wf[OF Cons.prems(1) rng]
    show ?thesis
    proof (cases "guessSpec b line col = - 1")
      case True
      then show ?thesis using Cons.IH[OF Cons.prems(1) rest] p inr False g by simp
    next
      case ng: False
      have s: "Set b line col (guessSpec b line col) = Some (setAt b line col (guessSpec b line col))"
        using sh rng by (rule Set_wf)
      have w: "wfBoard (setAt b line col (guessSpec b line col))"
        using Cons.prems(1) by (rule wfBoard_setAt)
      have rest': "\<forall>p\<in>set ps. fst p < Size (setAt b line col (guessSpec b line col)) \<and>
                     snd p < Size (setAt b line col (guessSpec b line col))"
        using rest by simp
      show ?thesis using Cons.IH[OF w rest', of True] p inr False g ng s by simp
    qed
  qed
qed

lemma trySolveTrivialPass_wf:
  "wfBoard b \<Longrightarrow> \<exists>b' ch. trySolveTrivialPass b = Some (b', ch) \<and> wfBoard b'"
  unfolding trySolveTrivialPass_def by (rule pass_loop_wf) auto

lemma TrySolveTrivial_wf:
  "wfBoard b \<Longrightarrow> \<exists>b' full err. TrySolveTrivial b = Some (b', full, err) \<and> wfBoard b'"
proof (induction b rule: TrySolveTrivial.induct)
  case (1 b)
  from trySolveTrivialPass_wf[OF "1.prems"] obtain b1 ch where
    p: "trySolveTrivialPass b = Some (b1, ch)" and w: "wfBoard b1" by blast
  show ?case
  proof (cases ch)
    case True
    from "1.IH"[OF p refl True w] show ?thesis
      by (subst TrySolveTrivial.simps) (simp add: p True)
  next
    case False
    from Validate_total[OF w] obtain full err where "Validate b1 = Some (full, err)" by blast
    then show ?thesis using w
      by (subst TrySolveTrivial.simps) (simp add: p False)
  qed
qed

lemma TrySolveTrivial_result:
  "TrySolveTrivial b = Some (b', full, err) \<Longrightarrow>
     trySolveTrivialPass b' = Some (b', False) \<and> Validate b' = Some (full, err)"
proof (induction b rule: TrySolveTrivial.induct)
  case (1 b)
  from "1.prems" obtain b1 ch where p: "trySolveTrivialPass b = Some (b1, ch)"
    by (subst (asm) TrySolveTrivial.simps) (auto split: option.splits)
  show ?case
  proof (cases ch)
    case True
    with "1.prems" p have "TrySolveTrivial b1 = Some (b', full, err)"
      by (subst (asm) TrySolveTrivial.simps) simp
    from "1.IH"[OF p refl True this] show ?thesis .
  next
    case False
    with "1.prems" p have r: "b' = b1" "Validate b1 = Some (full, err)"
      by (subst (asm) TrySolveTrivial.simps, auto split: option.splits)+
    from trySolveTrivialPass_props(2)[OF p] False have "b1 = b" by simp
    with p r False show ?thesis by simp
  qed
qed

text \<open>A 4x4 puzzle that trivial deduction completes.\<close>

definition puzzle4 :: Takuzu where
  "puzzle4 = \<lparr>Size = 4, Board =
     [[zeroCell, mkCell 1, mkCell 1, zeroCell],
      [mkCell 1, zeroCell, zeroCell, mkCell 1],
      [zeroCell, zeroCell, mkCell 1, mkCell 1],
      [mkCell 1, mkCell 1, zeroCell, zeroCell]]\<rparr>"

text \<open>
  Claim C6.  When \<open>TrySolveTrivial\<close> returns on a board, running it again on the board
  it left changes nothing and returns the same boolean and error.
\<close>

theorem TrySolveTrivial_idempotent:
  assumes "TrySolveTrivial b = Some (b', full, err)"
  shows "TrySolveTrivial b' = Some (b', full, err)"
proof -
  from TrySolveTrivial_result[OF assms]
  have "trySolveTrivialPass b' = Some (b', False)" "Validate b' = Some (full, err)" by simp_all
  then show ?thesis by (subst TrySolveTrivial.simps) simp
qed

theorem TrySolveTrivial_idempotent_witness:
  "TrySolveTrivial puzzle4 = Some (exampleBoard4, True, None) \<and>
   TrySolveTrivial exampleBoard4 = Some (exampleBoard4, True, None)"
proof -
  have a: "TrySolveTrivial puzzle4 = Some (exampleBoard4, True, None)" by code_simp
  from TrySolveTrivial_idempotent[OF a] a show ?thesis by blast
qed

text \<open>
  Claim C4.  On a well-formed board and a position of it: when the cell is defined,
  \<open>guessPos\<close> returns its value; otherwise, when setting the cell to 0 and completing
  its row and column leaves a row or column that fails \<open>checkRange\<close>, it returns 1;
  otherwise, when the same with 1 on the board as it was fails, it returns 0;
  otherwise it returns -1.
\<close>

theorem guessPos_spec:
  assumes "wfBoard b" and "l < Size b" and "c < Size b"
  shows "guessPos b l c =
           Some (if Defined (Board b ! l ! c) then Value (Board b ! l ! c)
                 else if refuted b l c 0 then 1
                 else if refuted b l c 1 then 0
                 else - 1)"
  using guessPos_wf[OF assms] by (simp add: guessSpec_def)

lemma puzzle4_wf: "wfBoard puzzle4"
  by (simp add: wfBoard_def wfShape_def puzzle4_def validCells_def zeroCell_def)

theorem guessPos_spec_witness:
  "wfBoard puzzle4 \<and> (0::nat) < Size puzzle4 \<and> \<not> Defined (Board puzzle4 ! 0 ! 0) \<and>
   \<not> refuted puzzle4 0 0 0 \<and> refuted puzzle4 0 0 1 \<and> guessPos puzzle4 0 0 = Some 0"
proof -
  have s: "(0::nat) < Size puzzle4" by (simp add: puzzle4_def)
  have d: "\<not> Defined (Board puzzle4 ! 0 ! 0)" by (simp add: puzzle4_def zeroCell_def)
  have r0: "\<not> refuted puzzle4 0 0 0" by code_simp
  have r1: "refuted puzzle4 0 0 1" by code_simp
  from guessPos_spec[OF puzzle4_wf s s] d r0 r1 have "guessPos puzzle4 0 0 = Some 0" by simp
  with puzzle4_wf s d r0 r1 show ?thesis by blast
qed

section \<open>Recursive solver (\<open>TrySolveRecurse\<close>)\<close>

text \<open>
  The errors a call of \<open>recurseSolve\<close> reports: a validation error wrapped with
  \<open>"the takuzu looks wrong"\<close>, \<open>"dead end"\<close>, \<open>"timeout"\<close>.
\<close>

datatype solveError = LooksWrong validationError | DeadEnd | Timeout

text \<open>
  The closure \<open>recurseSolve\<close> shares two variables of \<open>TrySolveRecurse\<close> with every
  goroutine it starts: \<open>singleSolution\<close> and \<open>solutionMap\<close>.  It only ever writes them,
  in one place, under \<open>solutionsMux\<close>:
  \<open>singleSolution = &t; if globalSearch { solutionMap[t.ToString()] = &t }\<close>.
  A call is therefore described by its status and by the sequence of these writes, its
  log: an entry is the board written and, with \<open>globalSearch\<close>, its key in the map.
  The variables are read back from the log by \<open>singleSolutionOf\<close> and \<open>solutionMapOf\<close>;
  the map is kept as an association list.
\<close>

type_synonym solverLog = "(string option \<times> Takuzu) list"

definition recordSolution :: "bool \<Rightarrow> Takuzu \<Rightarrow> (string option \<times> Takuzu) option" where
  "recordSolution globalSearch t =
     (if globalSearch then
        (case ToString t of
           None \<Rightarrow> None
         | Some k \<Rightarrow> Some (Some k, t))
      else Some (None, t))"

definition singleSolutionOf :: "solverLog \<Rightarrow> Takuzu option" where
  "singleSolutionOf log = (if log = [] then None else Some (snd (last log)))"

definition solutionMapOf :: "solverLog \<Rightarrow> (string \<times> Takuzu) list" where
  "solutionMapOf log =
     foldl (\<lambda>m (key, t). case key of None \<Rightarrow> m | Some k \<Rightarrow> AList.update k t m) [] log"

text \<open>
  What a run does not fix is left to a schedule.  Every call of \<open>recurseSolve\<close> has a
  path: \<open>[]\<close> for the call started by \<open>TrySolveRecurse\<close>, \<open>p @ [v]\<close> for the goroutine
  that the call at \<open>p\<close> starts for the value \<open>v\<close>, and \<open>p @ [2]\<close> for the next turn of the
  outer loop of the call at \<open>p\<close>.  In its collection loop the call at \<open>p\<close> reads the
  clock at most twice, after the first and after the second status it receives; these
  reads are named \<open>p @ [3]\<close> and \<open>p @ [4]\<close>.

    \<^item> \<open>expired r\<close> is the outcome of \<open>time.Since(startTime) > timeout\<close> at the read \<open>r\<close>;
    \<^item> \<open>oneFirst p\<close> tells, for a call that runs both values concurrently, whether the
      \<open>select\<close> receives the status of the value 1 before that of the value 0;
    \<^item> \<open>writeOrder p\<close> gives the order in which the writes of the two goroutines of that
      call reach the shared variables (\<open>False\<close>: the next write is one of the goroutine
      whose status is received first);
    \<^item> \<open>landed p\<close> is used when that call returns on the first status and only then
      waits for the second goroutine, which goes on running while the callers carry on:
      it is the number of writes of that goroutine that are done when
      \<open>TrySolveRecurse\<close> reads the variables.
\<close>

record schedule =
  expired :: "nat list \<Rightarrow> bool"
  oneFirst :: "nat list \<Rightarrow> bool"
  writeOrder :: "nat list \<Rightarrow> bool list"
  landed :: "nat list \<Rightarrow> nat"

text \<open>
  The writes of two goroutines in the order chosen by \<open>cs\<close>; each goroutine's own
  writes keep their order.
\<close>

fun interleave :: "bool list \<Rightarrow> 'a list \<Rightarrow> 'a list \<Rightarrow> 'a list" where
  "interleave cs [] ys = ys"
| "interleave cs (x # xs) [] = x # xs"
| "interleave [] (x # xs) (y # ys) = (x # xs) @ (y # ys)"
| "interleave (c # cs) (x # xs) (y # ys) =
     (if c then y # interleave cs (x # xs) ys else x # interleave cs xs (y # ys))"

text \<open>The orders a \<open>writeOrder\<close> can choose are the interleavings of the two logs.\<close>

lemma append_shuffles: "xs @ ys \<in> shuffles xs ys"
proof (induction xs)
  case Nil
  show ?case by simp
next
  case (Cons x xs)
  show ?case
  proof (cases ys)
    case Nil
    then show ?thesis by simp
  next
    case (Cons y ys')
    with Cons.IH show ?thesis by (simp add: shuffles.simps)
  qed
qed

lemma interleave_shuffles: "interleave cs xs ys \<in> shuffles xs ys"
proof (induction cs xs ys rule: interleave.induct)
  case (3 x xs y ys)
  show ?case using append_shuffles[of "x # xs" "y # ys"] by simp
qed (auto simp: shuffles.simps)

lemma shuffles_interleave: "zs \<in> shuffles xs ys \<Longrightarrow> \<exists>cs. interleave cs xs ys = zs"
proof (induction xs ys arbitrary: zs rule: shuffles.induct)
  case (1 ys)
  then show ?case by simp
next
  case (2 xs)
  then show ?case by (cases xs) auto
next
  case (3 x xs y ys)
  from "3.prems" consider zs' where "zs = x # zs'" "zs' \<in> shuffles xs (y # ys)"
    | zs' where "zs = y # zs'" "zs' \<in> shuffles (x # xs) ys"
    by (auto simp: shuffles.simps)
  then show ?case
  proof cases
    case 1
    from "3.IH"(1)[OF 1(2)] obtain cs where "interleave cs xs (y # ys) = zs'" by blast
    then have "interleave (False # cs) (x # xs) (y # ys) = zs" using 1(1) by simp
    then show ?thesis by blast
  next
    case 2
    from "3.IH"(2)[OF 2(2)] obtain cs where "interleave cs (x # xs) ys = zs'" by blast
    then have "interleave (True # cs) (x # xs) (y # ys) = zs" using 2(1) by simp
    then show ?thesis by blast
  qed
qed

text \<open>
  What follows a child's error in the collection loop: \<open>True\<close> when the call returns a
  timeout (the deadline has passed, read only when \<open>timeout > 0\<close> and \<open>level > 2\<close>, or
  the child's error is a timeout), \<open>False\<close> when the other value is to be committed.
\<close>

definition timedOut :: "int \<Rightarrow> schedule \<Rightarrow> nat \<Rightarrow> nat list \<Rightarrow> solveError \<Rightarrow> bool" where
  "timedOut timeout sch level r err =
     ((timeout > 0 \<and> level > 2 \<and> expired sch r) \<or> err = Timeout)"

text \<open>
  The loop labelled \<open>firstClear\<close>: the first undefined cell in row-major order;
  \<open>Some None\<close> when the loops end without one (\<open>line == t.Size\<close>).
\<close>

fun firstClear_loop :: "(nat \<times> nat) list \<Rightarrow> Takuzu \<Rightarrow> (nat \<times> nat) option option" where
  "firstClear_loop [] t = Some None"
| "firstClear_loop ((line, col) # rest) t =
     (if \<not> (line < length (Board t) \<and> col < length (Board t ! line)) then None
      else if \<not> Defined (Board t ! line ! col) then Some (Some (line, col))
      else firstClear_loop rest t)"

definition firstClear :: "Takuzu \<Rightarrow> (nat \<times> nat) option option" where
  "firstClear t = firstClear_loop (List.product [0..<Size t] [0..<Size t]) t"

text \<open>The code after the outer loop: \<open>Validate\<close>, and a full board is recorded.\<close>

definition finish :: "bool \<Rightarrow> Takuzu \<Rightarrow> solverLog \<Rightarrow> (solveError option \<times> solverLog) option" where
  "finish globalSearch t log =
     (case Validate t of
        None \<Rightarrow> None
      | Some (full, Some err) \<Rightarrow> Some (Some (LooksWrong err), log)
      | Some (full, None) \<Rightarrow>
          if full then
            (case recordSolution globalSearch t of
               None \<Rightarrow> None
             | Some w \<Rightarrow> Some (None, log @ [w]))
          else Some (None, log))"

text \<open>
  The end of a turn in which both values have been run concurrently:
  \<open>if errCount == 2\<close> the call reports a dead end, otherwise it leaves the outer loop.
\<close>

definition endOfCycle ::
  "bool \<Rightarrow> Takuzu \<Rightarrow> nat \<Rightarrow> solverLog \<Rightarrow> (solveError option \<times> solverLog) option" where
  "endOfCycle globalSearch t errCount log =
     (if errCount = 2 then Some (Some DeadEnd, log) else finish globalSearch t log)"

text \<open>
  The collection loop of a call that runs both values concurrently
  (\<open>concurrentRoutines = 2\<close>), given what the two goroutines do: \<open>r0\<close> for the value 0
  and \<open>r1\<close> for the value 1.  \<open>collectSecond\<close> is the iteration \<open>i = 1\<close>: \<open>val\<close> is the
  value whose status arrives second, \<open>log\<close> holds the writes of both goroutines.
  \<open>collectBoth\<close> is the iteration \<open>i = 0\<close> followed by the rest.  Where the source
  reports its status and then drains the other channel, the other goroutine is still
  running: of its writes only the first \<open>landed sch p\<close> are in the log.
\<close>

definition collectSecond ::
  "bool \<Rightarrow> int \<Rightarrow> schedule \<Rightarrow> nat \<Rightarrow> nat list \<Rightarrow> Takuzu \<Rightarrow> nat \<Rightarrow> nat \<Rightarrow> int \<Rightarrow> nat \<Rightarrow>
     solveError option \<Rightarrow> solverLog \<Rightarrow> (solveError option \<times> solverLog) option" where
  "collectSecond globalSearch timeout sch level p t line col val errCount err log =
     (case err of
        None \<Rightarrow>
          if \<not> globalSearch then Some (None, log)
          else endOfCycle globalSearch t errCount log
      | Some e \<Rightarrow>
          if timedOut timeout sch level (p @ [4]) e then Some (Some Timeout, log)
          else
            (case Set t line col (1 - val) of
               None \<Rightarrow> None
             | Some t' \<Rightarrow> endOfCycle globalSearch t' (errCount + 1) log))"

definition collectBoth ::
  "bool \<Rightarrow> int \<Rightarrow> schedule \<Rightarrow> nat \<Rightarrow> nat list \<Rightarrow> Takuzu \<Rightarrow> nat \<Rightarrow> nat \<Rightarrow>
     solveError option \<times> solverLog \<Rightarrow> solveError option \<times> solverLog \<Rightarrow>
     (solveError option \<times> solverLog) option" where
  "collectBoth globalSearch timeout sch level p t line col r0 r1 =
     (let val = (if oneFirst sch p then 1 else 0);
          (errA, logA) = (if oneFirst sch p then r1 else r0);
          (errB, logB) = (if oneFirst sch p then r0 else r1);
          both = interleave (writeOrder sch p) logA logB;
          early = interleave (writeOrder sch p) logA (take (landed sch p) logB)
      in
      case errA of
        None \<Rightarrow>
          if \<not> globalSearch then Some (None, early)
          else collectSecond globalSearch timeout sch level p t line col (1 - val) 0 errB both
      | Some e \<Rightarrow>
          if timedOut timeout sch level (p @ [3]) e then Some (Some Timeout, early)
          else
            (case Set t line col (1 - val) of
               None \<Rightarrow> None
             | Some t2 \<Rightarrow>
                 collectSecond globalSearch timeout sch level p t2 line col (1 - val) 1 errB both))"

text \<open>\<open>tx := t.Clone(); tx.Set(line, col, testCase)\<close>.\<close>

definition tryValue :: "Takuzu \<Rightarrow> nat \<Rightarrow> nat \<Rightarrow> int \<Rightarrow> Takuzu option" where
  "tryValue t line col testCase =
     (case Clone t of None \<Rightarrow> None | Some tx \<Rightarrow> Set tx line col testCase)"

lemma firstClear_loop_Some:
  "firstClear_loop ps t = Some (Some (line, col)) \<Longrightarrow>
     (line, col) \<in> set ps \<and> \<not> defAt t line col \<and>
     line < length (Board t) \<and> col < length (Board t ! line)"
  by (induction ps t rule: firstClear_loop.induct) (auto simp: defAt_def split: if_splits)

lemma firstClear_Some:
  "firstClear t = Some (Some (line, col)) \<Longrightarrow>
     line < Size t \<and> col < Size t \<and> \<not> defAt t line col \<and>
     line < length (Board t) \<and> col < length (Board t ! line)"
  unfolding firstClear_def by (drule firstClear_loop_Some) auto

lemma Clone_Size: "Clone b = Some bx \<Longrightarrow> Size bx = Size b"
  by (auto simp: Clone_def split: if_splits)

lemma Clone_defAt:
  assumes "Clone b = Some bx" "l < Size b" "c < Size b"
  shows "defAt bx l c = defAt b l c"
proof -
  from assms(1) have ok: "list_all (\<lambda>(line, row). row = [] \<or> (line < Size b \<and> length row \<le> Size b))
           (zip [0..<length (Board b)] (Board b))"
    and bx: "Board bx = map (\<lambda>line.
                           if line < length (Board b)
                           then Board b ! line @ replicate (Size b - length (Board b ! line)) zeroCell
                           else replicate (Size b) zeroCell) [0..<Size b]"
    by (auto simp: Clone_def split: if_splits)
  show ?thesis
  proof (cases "l < length (Board b)")
    case False
    then show ?thesis using bx assms(2,3) by (simp add: defAt_def zeroCell_def)
  next
    case True
    have row: "Board bx ! l = Board b ! l @ replicate (Size b - length (Board b ! l)) zeroCell"
      using bx True assms(2) by simp
    from ok True have le: "length (Board b ! l) \<le> Size b"
      by (auto simp: list_all_length)
    show ?thesis
    proof (cases "c < length (Board b ! l)")
      case True
      then show ?thesis using row \<open>l < length (Board b)\<close> bx assms(2) le
        by (simp add: defAt_def nth_append)
    next
      case False
      then show ?thesis using row \<open>l < length (Board b)\<close> bx assms(2,3) le
        by (simp add: defAt_def nth_append zeroCell_def)
    qed
  qed
qed

lemma tryValue_undefCount:
  assumes "tryValue t line col v = Some tx" "line < Size t" "col < Size t" "v = 0 \<or> v = 1"
  shows "Size tx = Size t"
    and "\<not> defAt t line col \<Longrightarrow> undefCount tx < undefCount t"
    and "undefCount tx \<le> undefCount t"
proof -
  from assms(1) obtain t0 where c: "Clone t = Some t0" and s: "Set t0 line col v = Some tx"
    by (auto simp: tryValue_def split: option.splits)
  show sz: "Size tx = Size t" using Clone_Size[OF c] Set_Size[OF s] by simp
  have mono: "defAt tx l c" if "l < Size t" "c < Size t" "defAt t l c" for l c
    using Set_defAt[OF s, of l c] Clone_defAt[OF c that(1,2)] that(3) assms(4)
    by (auto split: if_splits)
  have d: "defAt tx line col" using Set_defAt[OF s, of line col] assms(4) by simp
  show "undefCount tx < undefCount t" if "\<not> defAt t line col"
    using undefCount_less[OF sz mono assms(2,3) that d] by simp
  show "undefCount tx \<le> undefCount t"
    using undefCount_le[OF sz mono] by simp
qed

lemma TrySolveTrivial_extends:
  "TrySolveTrivial b = Some (b', full, err) \<Longrightarrow> extends b b'"
proof (induction b rule: TrySolveTrivial.induct)
  case (1 b)
  from "1.prems" obtain b1 ch where p: "trySolveTrivialPass b = Some (b1, ch)"
    by (subst (asm) TrySolveTrivial.simps) (auto split: option.splits)
  note e1 = trySolveTrivialPass_props(1)[OF p]
  show ?case
  proof (cases ch)
    case True
    with "1.prems" p have "TrySolveTrivial b1 = Some (b', full, err)"
      by (subst (asm) TrySolveTrivial.simps) simp
    from "1.IH"[OF p refl True this] e1 show ?thesis by (rule extends_trans[rotated])
  next
    case False
    with "1.prems" p have "b' = b1"
      by (subst (asm) TrySolveTrivial.simps) (auto split: option.splits)
    with e1 show ?thesis by simp
  qed
qed

lemma TrySolveTrivial_undefCount:
  "TrySolveTrivial t = Some (t1, full, e) \<Longrightarrow> undefCount t1 \<le> undefCount t"
  by (drule TrySolveTrivial_extends) (rule extends_undefCount)

lemma child_measure:
  assumes "TrySolveTrivial t = Some (t1, full, e)" "firstClear t1 = Some (Some (line, col))"
    "tryValue t1 line col v = Some tx" "v = 0 \<or> v = 1"
  shows "undefCount tx < undefCount t"
proof -
  from firstClear_Some[OF assms(2)] have "line < Size t1" "col < Size t1" "\<not> defAt t1 line col"
    by simp_all
  from tryValue_undefCount(2)[OF assms(3) this(1,2) assms(4) this(3)]
    TrySolveTrivial_undefCount[OF assms(1)]
  show ?thesis by simp
qed

lemma loop_measure:
  assumes "TrySolveTrivial t = Some (t1, full, e)" "firstClear t1 = Some (Some (line, col))"
    "Set t1 line col 1 = Some t2"
  shows "undefCount t2 < undefCount t" "Size t2 = Size t1" "defAt t2 line col"
proof -
  from firstClear_Some[OF assms(2)] have f: "line < Size t1" "col < Size t1" "\<not> defAt t1 line col"
    by simp_all
  show sz: "Size t2 = Size t1" using assms(3) by (rule Set_Size)
  show d: "defAt t2 line col" using Set_defAt[OF assms(3), of line col] by simp
  have "extends t1 t2" using assms(3) f(3) by (rule Set_extends)
  then have "undefCount t2 < undefCount t1"
    using undefCount_less[OF sz _ f d] by (simp add: extends_def)
  with TrySolveTrivial_undefCount[OF assms(1)] show "undefCount t2 < undefCount t" by simp
qed

lemma child2_measure:
  assumes "TrySolveTrivial t = Some (t1, full, e)" "firstClear t1 = Some (Some (line, col))"
    "Set t1 line col 1 = Some t2" "tryValue t2 line col 1 = Some tx"
  shows "undefCount tx < undefCount t"
proof -
  from firstClear_Some[OF assms(2)] have f: "line < Size t1" "col < Size t1" by simp_all
  note l = loop_measure[OF assms(1,2,3)]
  from tryValue_undefCount(3)[OF assms(4)] f l(2) have "undefCount tx \<le> undefCount t2" by simp
  with l(1) show ?thesis by simp
qed

text \<open>
  \<open>recurseSolve\<close>.  \<open>globalSearch\<close>, \<open>timeout\<close> and \<open>schrodLvl\<close> are the variables the closure
  captures; \<open>schrodLvl\<close> is a \<open>uint\<close> that the source converts with \<open>int(schrodLvl)\<close>.
  One equation is one turn of the outer loop of the source; the call at the same
  \<open>level\<close> is the next turn.

  When \<open>level < int(schrodLvl)\<close> both values are started on clones of the board and
  their statuses are collected by \<open>collectBoth\<close>; the turn is the last one.  Otherwise
  one child runs at a time and the call waits for its status: with \<open>globalSearch\<close>
  both values are tried in the same turn; without it the turn ends at the first child
  that succeeds, or commits the other value when the child fails.
\<close>

function recurseSolve ::
  "bool \<Rightarrow> int \<Rightarrow> 64 word \<Rightarrow> schedule \<Rightarrow> nat \<Rightarrow> nat list \<Rightarrow> Takuzu \<Rightarrow>
     (solveError option \<times> solverLog) option" where
  "recurseSolve globalSearch timeout schrodLvl sch level p t =
     (case TrySolveTrivial t of
        None \<Rightarrow> None
      | Some (t1, full, Some err) \<Rightarrow> Some (Some (LooksWrong err), [])
      | Some (t1, full, None) \<Rightarrow>
          if full then map_option (\<lambda>w. (None, [w])) (recordSolution globalSearch t1)
          else
            (case firstClear t1 of
               None \<Rightarrow> None
             | Some None \<Rightarrow> finish globalSearch t1 []
             | Some (Some (line, col)) \<Rightarrow>
                 if int level < sint schrodLvl then
                   (case tryValue t1 line col 0 of
                      None \<Rightarrow> None
                    | Some tx0 \<Rightarrow>
                        (case tryValue t1 line col 1 of
                           None \<Rightarrow> None
                         | Some tx1 \<Rightarrow>
                             (case recurseSolve globalSearch timeout schrodLvl sch (level + 1) (p @ [0]) tx0 of
                                None \<Rightarrow> None
                              | Some r0 \<Rightarrow>
                                  (case recurseSolve globalSearch timeout schrodLvl sch (level + 1) (p @ [1]) tx1 of
                                     None \<Rightarrow> None
                                   | Some r1 \<Rightarrow>
                                       collectBoth globalSearch timeout sch level p t1 line col r0 r1))))
                 else
                 (case tryValue t1 line col 0 of
                    None \<Rightarrow> None
                  | Some tx \<Rightarrow>
                      (case recurseSolve globalSearch timeout schrodLvl sch (level + 1) (p @ [0]) tx of
                         None \<Rightarrow> None
                       | Some (None, log0) \<Rightarrow>
                           if \<not> globalSearch then Some (None, log0)
                           else
                             (case tryValue t1 line col 1 of
                                None \<Rightarrow> None
                              | Some tx \<Rightarrow>
                                  (case recurseSolve globalSearch timeout schrodLvl sch (level + 1) (p @ [1]) tx of
                                     None \<Rightarrow> None
                                   | Some (None, log1) \<Rightarrow> finish globalSearch t1 (log0 @ log1)
                                   | Some (Some err, log1) \<Rightarrow>
                                       if timedOut timeout sch level (p @ [4]) err
                                       then Some (Some Timeout, log0 @ log1)
                                       else
                                         (case Set t1 line col 0 of
                                            None \<Rightarrow> None
                                          | Some t2 \<Rightarrow> finish globalSearch t2 (log0 @ log1))))
                       | Some (Some err, log0) \<Rightarrow>
                           if timedOut timeout sch level (p @ [3]) err
                           then Some (Some Timeout, log0)
                           else
                             (case Set t1 line col 1 of
                                None \<Rightarrow> None
                              | Some t2 \<Rightarrow>
                                  if \<not> globalSearch
                                  then
                                    (case recurseSolve globalSearch timeout schrodLvl sch level (p @ [2]) t2 of
                                       None \<Rightarrow> None
                                     | Some (e, log) \<Rightarrow> Some (e, log0 @ log))
                                  else
                                    (case tryValue t2 line col 1 of
                                       None \<Rightarrow> None
                                     | Some tx \<Rightarrow>
                                         (case recurseSolve globalSearch timeout schrodLvl sch (level + 1) (p @ [1]) tx of
                                            None \<Rightarrow> None
                                          | Some (None, log1) \<Rightarrow> finish globalSearch t2 (log0 @ log1)
                                          | Some (Some err, log1) \<Rightarrow>
                                              if timedOut timeout sch level (p @ [4]) err
                                              then Some (Some Timeout, log0 @ log1)
                                              else
                                                (case Set t2 line col 0 of
                                                   None \<Rightarrow> None
                                                 | Some t3 \<Rightarrow> Some (Some DeadEnd, log0 @ log1)))))))))"
  by pat_completeness auto

termination
  apply (relation "measure (\<lambda>(g, tmo, sl, sch, level, p, t). undefCount t)")
        apply simp
       apply (clarsimp, erule (2) child_measure, simp)
      apply (clarsimp, erule (2) child_measure, simp)
     apply (clarsimp, erule (2) child_measure, simp)
    apply (clarsimp, erule (2) child_measure, simp)
   apply (clarsimp, erule (2) loop_measure(1))
  apply (clarsimp, erule (3) child2_measure)
  done

declare recurseSolve.simps [simp del]

text \<open>
  \<open>TrySolveRecurse\<close>.  \<open>allSolutions\<close> is \<open>None\<close> for a nil pointer.  It waits for the
  status of the call at level 0 and then reads the shared variables.  Go leaves the
  order of \<open>range solutionMap\<close> open: \<open>mapOrder\<close> gives the order in which the entries
  are appended.  The result is the returned pair and the accumulator afterwards.
\<close>

definition TrySolveRecurse ::
  "((string \<times> Takuzu) list \<Rightarrow> (string \<times> Takuzu) list) \<Rightarrow> schedule \<Rightarrow> 64 word \<Rightarrow>
     Takuzu \<Rightarrow> Takuzu list option \<Rightarrow> int \<Rightarrow>
     ((Takuzu option \<times> solveError option) \<times> Takuzu list option) option" where
  "TrySolveRecurse mapOrder sch schrodLvl b allSolutions timeout =
     (let globalSearch = (allSolutions \<noteq> None) in
      case recurseSolve globalSearch timeout schrodLvl sch 0 [] b of
        None \<Rightarrow> None
      | Some (err, log) \<Rightarrow>
          let firstSol = singleSolutionOf log;
              allSolutions' =
                (case allSolutions of
                   None \<Rightarrow> None
                 | Some acc \<Rightarrow> Some (acc @ map snd (mapOrder (solutionMapOf log))))
          in
          (case err of
             Some e \<Rightarrow> Some ((firstSol, Some e), allSolutions')
           | None \<Rightarrow>
               (case allSolutions' of
                  Some (x # xs) \<Rightarrow> Some ((Some x, None), allSolutions')
                | _ \<Rightarrow> Some ((firstSol, None), allSolutions'))))"

subsection \<open>Scenario S1\<close>

text \<open>Boards written as rows of characters.\<close>

definition cellOf :: "char \<Rightarrow> Cell" where
  "cellOf ch = (case decodeChar ch of Some c \<Rightarrow> c | None \<Rightarrow> zeroCell)"

definition puzzleS1 :: Takuzu where
  "puzzleS1 = \<lparr>Size = 6, Board = map (map cellOf)
     [''......'', ''0....0'', ''..1...'', ''....1.'', ''1.00..'', ''1.....'']\<rparr>"

lemma puzzleS1_decode:
  "NewFromString ''......0....0..1.......1.1.00..1.....'' = Inr puzzleS1"
  by code_simp

lemma puzzleS1_solve:
  "recurseSolve False 0 0 sch 0 [] puzzleS1 =
     Some (None, [(None, \<lparr>Size = 6, Board = map (map cellOf)
        [''011001'', ''010110'', ''101100'', ''001011'', ''110010'', ''100101'']\<rparr>)])"
  by code_simp

lemma solutionS1_ToString:
  "ToString \<lparr>Size = 6, Board = map (map cellOf)
        [''011001'', ''010110'', ''101100'', ''001011'', ''110010'', ''100101'']\<rparr>
   = Some ''011001010110101100001011110010100101''"
  by code_simp

text \<open>
  Claim C7.  The string of scenario S1 decodes to a 6x6 board, and \<open>TrySolveRecurse\<close>
  on it with a nil accumulator and no timeout, at the Schroedinger level 0 that
  \<open>schrodLvl\<close> starts with, returns no error and a board that encodes to the solution
  of the scenario, whatever the schedule and the map order.
\<close>

theorem scenario_S1:
  "\<exists>b sol. NewFromString ''......0....0..1.......1.1.00..1.....'' = Inr b \<and> Size b = 6 \<and>
      length (Board b) = 6 \<and> list_all (\<lambda>row. length row = 6) (Board b) \<and>
      TrySolveRecurse mapOrder sch 0 b None 0 = Some ((Some sol, None), None) \<and>
      ToString sol = Some ''011001010110101100001011110010100101''"
proof -
  have sh: "Size puzzleS1 = 6 \<and> length (Board puzzleS1) = 6 \<and>
            list_all (\<lambda>row. length row = 6) (Board puzzleS1)"
    by (simp add: puzzleS1_def)
  have "TrySolveRecurse mapOrder sch 0 puzzleS1 None 0 =
      Some ((Some \<lparr>Size = 6, Board = map (map cellOf)
        [''011001'', ''010110'', ''101100'', ''001011'', ''110010'', ''100101'']\<rparr>, None), None)"
    by (simp add: TrySolveRecurse_def puzzleS1_solve singleSolutionOf_def)
  with puzzleS1_decode sh solutionS1_ToString show ?thesis by blast
qed

subsection \<open>Enumerating all solutions\<close>

lemma Validate_loop_full:
  "Validate_loop b is (fin, lv, cv) = Some (True, None) \<Longrightarrow>
     fin \<and> (\<forall>i\<in>set is. \<exists>d. GetLine b i = Some d \<and> allDefined d)"
proof (induction "is" arbitrary: fin lv cv)
  case Nil
  then show ?case by simp
next
  case (Cons i rest)
  from Cons.prems obtain d full d' full' where st:
    "GetLine b i = Some d" "checkRange d = Some (full, None)"
    "Validate_loop b rest
       (if full' then (if full then fin else False) else False,
        if full then lv (computeVal d := True) else lv,
        if full' then cv (computeVal d' := True) else cv) = Some (True, None)"
    by (rule Validate_loop_Cons_ok)
  from Cons.IH[OF st(3)] have ih: "(if full' then (if full then fin else False) else False)"
    "\<forall>i\<in>set rest. \<exists>d. GetLine b i = Some d \<and> allDefined d" by blast+
  from ih(1) have "full" "fin" by (auto split: if_splits)
  moreover have "allDefined d" using checkRange_ok(3)[OF st(2)] \<open>full\<close> by simp
  ultimately show ?case using st(1) ih(2) by simp
qed

lemma Validate_full:
  assumes "wfShape t" "Validate t = Some (True, None)" "l < Size t" "c < Size t"
  shows "Defined (Board t ! l ! c)"
proof -
  from Validate_loop_full[OF assms(2)[unfolded Validate_def]]
  have "\<forall>i\<in>set [0..<Size t]. \<exists>d. GetLine t i = Some d \<and> allDefined d" by blast
  moreover have "l \<in> set [0..<Size t]" using assms(3) by simp
  ultimately obtain d where "GetLine t l = Some d" "allDefined d" by blast
  then have "allDefined (Board t ! l)" using GetLine_wf[OF assms(1,3)] by (simp add: rowOf_def)
  then show ?thesis using wfShape_row[OF assms(1,3)] assms(4)
    by (simp add: allDefined_def list_all_length)
qed

lemma TrySolveTrivial_wfBoard:
  "wfBoard t \<Longrightarrow> TrySolveTrivial t = Some (t1, full, e) \<Longrightarrow> wfBoard t1"
  using TrySolveTrivial_wf[of t] by auto

lemma Set_extends_same:
  assumes "Set b l c v = Some b'" "v = 0 \<or> v = 1"
    "defAt b l c \<longrightarrow> Value (Board b ! l ! c) = v"
  shows "extends b b'"
  unfolding extends_def
proof (intro conjI allI impI)
  show "Size b' = Size b" using assms(1) by (rule Set_Size)
  fix l' c' assume d: "defAt b l' c'"
  show "defAt b' l' c'" using Set_defAt[OF assms(1), of l' c'] d assms(2) by simp
  show "Value (Board b' ! l' ! c') = Value (Board b ! l' ! c')"
    using Set_cell[OF assms(1), of l' c'] d assms(2,3) by (auto simp: SetCell_def)
qed

lemma Set_wfBoard:
  "wfBoard b \<Longrightarrow> Set b l c v = Some b' \<Longrightarrow> wfBoard b'"
proof -
  assume wf: "wfBoard b" and s: "Set b l c v = Some b'"
  from s have "b' = setAt b l c v" by (auto simp: Set_def setAt_def split: if_splits)
  with wfBoard_setAt[OF wf] show ?thesis by simp
qed

lemma tryValue_wf:
  assumes "wfBoard t" "tryValue t line col v = Some tx" "v = 0 \<or> v = 1"
    "defAt t line col \<longrightarrow> Value (Board t ! line ! col) = v"
  shows "wfBoard tx" "extends t tx"
proof -
  from assms(2) Clone_wf[OF wfBoard_shape[OF assms(1)]] have s: "Set t line col v = Some tx"
    by (simp add: tryValue_def)
  show "wfBoard tx" using assms(1) s by (rule Set_wfBoard)
  show "extends t tx" using s assms(3,4) by (rule Set_extends_same)
qed

text \<open>
  What holds of every write while the solver runs on \<open>B\<close>: the board written is
  well-formed, passes \<open>Validate\<close> as a full board and extends \<open>B\<close>, and a key is the
  encoding of its board.
\<close>

definition logInv :: "Takuzu \<Rightarrow> solverLog \<Rightarrow> bool" where
  "logInv B log =
     (\<forall>(key, t)\<in>set log.
         wfBoard t \<and> Validate t = Some (True, None) \<and> extends B t \<and>
         (\<forall>k. key = Some k \<longrightarrow> ToString t = Some k))"

text \<open>
  The same of the solution map: every entry is keyed by the encoding of its board, and
  no key occurs twice.
\<close>

definition solInv :: "Takuzu \<Rightarrow> (string \<times> Takuzu) list \<Rightarrow> bool" where
  "solInv B m =
     (distinct (map fst m) \<and>
      (\<forall>(k, t)\<in>set m.
          ToString t = Some k \<and> wfBoard t \<and> Validate t = Some (True, None) \<and> extends B t))"

lemma logInv_Nil [simp]: "logInv B []"
  by (simp add: logInv_def)

lemma logInv_append [simp]: "logInv B (xs @ ys) = (logInv B xs \<and> logInv B ys)"
  by (auto simp: logInv_def)

lemma set_interleave: "set (interleave cs xs ys) = set xs \<union> set ys"
  by (induction cs xs ys rule: interleave.induct) auto

lemma logInv_interleave:
  "logInv B xs \<Longrightarrow> logInv B ys \<Longrightarrow> logInv B (interleave cs xs ys)"
  by (auto simp: logInv_def set_interleave)

lemma logInv_take: "logInv B xs \<Longrightarrow> logInv B (take n xs)"
  unfolding logInv_def using set_take_subset[of n xs] by blast

lemma recordSolution_inv:
  assumes "recordSolution g t = Some w" "wfBoard t" "Validate t = Some (True, None)"
    "extends B t"
  shows "logInv B [w]"
  using assms by (auto simp: recordSolution_def logInv_def split: if_splits option.splits)

lemma finish_inv:
  assumes "finish g t log = Some (e, log')" "wfBoard t" "extends B t" "logInv B log"
  shows "logInv B log'"
proof -
  from assms(1) obtain full ve where v: "Validate t = Some (full, ve)"
    by (cases "Validate t") (auto simp: finish_def)
  show ?thesis
  proof (cases "full \<and> ve = None")
    case True
    with assms(1) v obtain w where "recordSolution g t = Some w" "log' = log @ [w]"
      by (auto simp: finish_def split: option.splits)
    with recordSolution_inv[OF _ assms(2) _ assms(3)] v True assms(4) show ?thesis by simp
  next
    case False
    with assms(1) v have "log' = log" by (cases ve) (auto simp: finish_def split: if_splits)
    with assms(4) show ?thesis by simp
  qed
qed

lemma endOfCycle_inv:
  assumes "endOfCycle g t n log = Some (e, log')" "logInv B log"
    "n \<noteq> 2 \<Longrightarrow> wfBoard t \<and> extends B t"
  shows "logInv B log'"
proof (cases "n = 2")
  case True
  with assms(1,2) show ?thesis by (simp add: endOfCycle_def)
next
  case False
  with assms(1) have "finish g t log = Some (e, log')" by (simp add: endOfCycle_def)
  then show ?thesis using assms(3)[OF False] assms(2) by (auto intro: finish_inv)
qed

lemma collectSecond_inv:
  assumes run: "collectSecond g tmo sch level p t line col v n err log = Some (e, log')"
    and inv: "logInv B log" and wf: "wfBoard t" and ext: "extends B t"
    and n: "n = 0 \<and> \<not> defAt t line col \<or> n = 1"
  shows "logInv B log'"
proof (cases err)
  case None
  show ?thesis
  proof (cases g)
    case False
    with run None inv show ?thesis by (simp add: collectSecond_def)
  next
    case True
    with run None have "endOfCycle g t n log = Some (e, log')" by (simp add: collectSecond_def)
    then show ?thesis using inv by (rule endOfCycle_inv) (simp add: wf ext)
  qed
next
  case (Some er)
  show ?thesis
  proof (cases "timedOut tmo sch level (p @ [4]) er")
    case True
    with run Some inv show ?thesis by (simp add: collectSecond_def)
  next
    case False
    with run Some obtain t' where s: "Set t line col (1 - v) = Some t'"
      and eoc: "endOfCycle g t' (n + 1) log = Some (e, log')"
      by (auto simp: collectSecond_def split: option.splits)
    have wf': "wfBoard t'" using wf s by (rule Set_wfBoard)
    have we: "wfBoard t' \<and> extends B t'" if "n + 1 \<noteq> 2"
    proof -
      from that n have "\<not> defAt t line col" by auto
      from extends_trans[OF ext Set_extends[OF s this]] wf' show ?thesis by simp
    qed
    from eoc inv show ?thesis by (rule endOfCycle_inv) (rule we)
  qed
qed

lemma collectBoth_inv:
  assumes run: "collectBoth g tmo sch level p t line col r0 r1 = Some (e, log')"
    and i0: "logInv B (snd r0)" and i1: "logInv B (snd r1)"
    and wf: "wfBoard t" and ext: "extends B t" and nd: "\<not> defAt t line col"
  shows "logInv B log'"
proof -
  define val :: int where "val = (if oneFirst sch p then 1 else 0)"
  define rA where "rA = (if oneFirst sch p then r1 else r0)"
  define rB where "rB = (if oneFirst sch p then r0 else r1)"
  define both where "both = interleave (writeOrder sch p) (snd rA) (snd rB)"
  define early where
    "early = interleave (writeOrder sch p) (snd rA) (take (landed sch p) (snd rB))"
  have iA: "logInv B (snd rA)" and iB: "logInv B (snd rB)"
    using i0 i1 by (simp_all add: rA_def rB_def)
  have ib: "logInv B both" unfolding both_def using iA iB by (rule logInv_interleave)
  have ie: "logInv B early" unfolding early_def
    using iA logInv_take[OF iB] by (rule logInv_interleave)
  have eq: "collectBoth g tmo sch level p t line col r0 r1 =
     (case fst rA of
        None \<Rightarrow>
          if \<not> g then Some (None, early)
          else collectSecond g tmo sch level p t line col (1 - val) 0 (fst rB) both
      | Some er \<Rightarrow>
          if timedOut tmo sch level (p @ [3]) er then Some (Some Timeout, early)
          else
            (case Set t line col (1 - val) of
               None \<Rightarrow> None
             | Some t2 \<Rightarrow>
                 collectSecond g tmo sch level p t2 line col (1 - val) 1 (fst rB) both))"
    unfolding collectBoth_def Let_def val_def rA_def rB_def both_def early_def
    by (simp add: case_prod_beta)
  note H = run[unfolded eq]
  show ?thesis
  proof (cases "fst rA")
    case None
    note H1 = H[simplified None option.case]
    show ?thesis
    proof (cases g)
      case False
      with H1 ie show ?thesis by simp
    next
      case True
      with H1 have "collectSecond g tmo sch level p t line col (1 - val) 0 (fst rB) both
                      = Some (e, log')" by simp
      then show ?thesis using ib wf ext by (rule collectSecond_inv) (simp add: nd)
    qed
  next
    case (Some er)
    note H1 = H[simplified Some option.case]
    show ?thesis
    proof (cases "timedOut tmo sch level (p @ [3]) er")
      case True
      with H1 ie show ?thesis by simp
    next
      case False
      with H1 obtain t2 where s: "Set t line col (1 - val) = Some t2"
        and cs: "collectSecond g tmo sch level p t2 line col (1 - val) 1 (fst rB) both
                   = Some (e, log')"
        by (auto split: option.splits)
      have wf2: "wfBoard t2" using wf s by (rule Set_wfBoard)
      have ext2: "extends B t2" using extends_trans[OF ext Set_extends[OF s nd]] .
      from cs ib wf2 ext2 show ?thesis by (rule collectSecond_inv) simp
    qed
  qed
qed

lemmas case_rules = option.case prod.case bool.case if_True if_False simp_thms

lemma recurseSolve_inv:
  "recurseSolve g tmo sl sch level p t = Some (err, log) \<Longrightarrow> wfBoard t \<Longrightarrow> extends B t \<Longrightarrow>
     logInv B log"
proof (induction "undefCount t" arbitrary: t level p err log rule: less_induct)
  case less
  note H = less.prems(1) and wf = less.prems(2) and ext = less.prems(3)
  note IH = less.hyps
  note H1 = H[unfolded recurseSolve.simps[of g tmo sl sch level p t]]
  obtain t1 full e where ts: "TrySolveTrivial t = Some (t1, full, e)"
    using H1 by (cases "TrySolveTrivial t") auto
  have wf1: "wfBoard t1" using TrySolveTrivial_wfBoard[OF wf ts] .
  have ext1: "extends B t1" using extends_trans[OF ext TrySolveTrivial_extends[OF ts]] .
  have val1: "Validate t1 = Some (full, e)" using TrySolveTrivial_result[OF ts] by simp
  note H2 = H1[simplified ts case_rules]
  show ?case
  proof (cases e)
    case (Some ve)
    with H2 have "log = []" by simp
    then show ?thesis by simp
  next
    case None
    note e = this
    note H3 = H2[simplified e case_rules]
    show ?thesis
    proof (cases full)
      case True
      with H3 obtain w where "recordSolution g t1 = Some w" "log = [w]" by auto
      then show ?thesis using recordSolution_inv[OF _ wf1 _ ext1] val1 True e by simp
    next
      case False
      note H4 = H3[simplified False case_rules]
      show ?thesis
      proof (cases "firstClear t1")
        case None
        with H4 show ?thesis by simp
      next
        case (Some fc)
        note fcs = this
        show ?thesis
        proof (cases fc)
          case None
          with H4 fcs have "finish g t1 [] = Some (err, log)" by simp
          then show ?thesis using wf1 ext1 logInv_Nil by (rule finish_inv)
        next
          case (Some q)
          obtain line col where q: "q = (line, col)" by (cases q)
          have fc: "firstClear t1 = Some (Some (line, col))" using fcs Some q by simp
          note H5 = H4[simplified fc case_rules]
          from firstClear_Some[OF fc] have rng: "line < Size t1" "col < Size t1"
            and nd: "\<not> defAt t1 line col" by simp_all
          show ?thesis
          proof (cases "int level < sint sl")
            case True
            note S1 = H5[simplified True case_rules]
            obtain tx0 where tv0: "tryValue t1 line col 0 = Some tx0"
              using S1 by (cases "tryValue t1 line col 0") auto
            note S2 = S1[simplified tv0 case_rules]
            obtain tx1 where tv1: "tryValue t1 line col 1 = Some tx1"
              using S2 by (cases "tryValue t1 line col 1") auto
            note S3 = S2[simplified tv1 case_rules]
            have wfx0: "wfBoard tx0" "extends t1 tx0"
              using tryValue_wf[OF wf1 tv0] nd by simp_all
            have wfx1: "wfBoard tx1" "extends t1 tx1"
              using tryValue_wf[OF wf1 tv1] nd by simp_all
            obtain r0 where rc0: "recurseSolve g tmo sl sch (level + 1) (p @ [0]) tx0 = Some r0"
              using S3 by (cases "recurseSolve g tmo sl sch (level + 1) (p @ [0]) tx0") auto
            note S4 = S3[simplified rc0 case_rules]
            obtain r1 where rc1: "recurseSolve g tmo sl sch (level + 1) (p @ [1]) tx1 = Some r1"
              using S4 by (cases "recurseSolve g tmo sl sch (level + 1) (p @ [1]) tx1") auto
            note S5 = S4[simplified rc1 case_rules]
            have m0: "undefCount tx0 < undefCount t" using child_measure[OF ts fc tv0] by simp
            have m1: "undefCount tx1 < undefCount t" using child_measure[OF ts fc tv1] by simp
            have rc0': "recurseSolve g tmo sl sch (level + 1) (p @ [0]) tx0 = Some (fst r0, snd r0)"
              using rc0 by simp
            have rc1': "recurseSolve g tmo sl sch (level + 1) (p @ [1]) tx1 = Some (fst r1, snd r1)"
              using rc1 by simp
            have i0: "logInv B (snd r0)"
              using IH[OF m0 rc0' wfx0(1) extends_trans[OF ext1 wfx0(2)]] .
            have i1: "logInv B (snd r1)"
              using IH[OF m1 rc1' wfx1(1) extends_trans[OF ext1 wfx1(2)]] .
            from S5 i0 i1 wf1 ext1 nd show ?thesis by (rule collectBoth_inv)
          next
            case False
            note H5 = H5[simplified False case_rules]
          obtain tx0 where tv0: "tryValue t1 line col 0 = Some tx0"
            using H5 by (cases "tryValue t1 line col 0") auto
          have wfx0: "wfBoard tx0" "extends t1 tx0"
            using tryValue_wf[OF wf1 tv0] nd by simp_all
          note H6 = H5[simplified tv0 case_rules]
          obtain r0 log0 where rc0: "recurseSolve g tmo sl sch (level + 1) (p @ [0]) tx0 = Some (r0, log0)"
            using H6 by (cases "recurseSolve g tmo sl sch (level + 1) (p @ [0]) tx0") auto
          have m0: "undefCount tx0 < undefCount t" using child_measure[OF ts fc tv0] by simp
          have inv0: "logInv B log0"
            using IH[OF m0 rc0 wfx0(1) extends_trans[OF ext1 wfx0(2)]] .
          note H7 = H6[simplified rc0 case_rules]
          show ?thesis
          proof (cases r0)
            case None
            note H8 = H7[simplified None case_rules]
            show ?thesis
            proof (cases g)
              case False
              with H8 have "log = log0" by simp
              with inv0 show ?thesis by simp
            next
              case True
              note H9 = H8[simplified True case_rules]
              obtain tx1 where tv1: "tryValue t1 line col 1 = Some tx1"
                using H9 by (cases "tryValue t1 line col 1") auto
              have wfx1: "wfBoard tx1" "extends t1 tx1"
                using tryValue_wf[OF wf1 tv1] nd by simp_all
              note H10 = H9[simplified tv1 case_rules]
              obtain r1 log1 where rc1: "recurseSolve True tmo sl sch (level + 1) (p @ [1]) tx1 = Some (r1, log1)"
                using H10 by (cases "recurseSolve True tmo sl sch (level + 1) (p @ [1]) tx1") auto
              have m1: "undefCount tx1 < undefCount t" using child_measure[OF ts fc tv1] by simp
              have rc1g: "recurseSolve g tmo sl sch (level + 1) (p @ [1]) tx1 = Some (r1, log1)"
                using rc1 True by simp
              have inv1: "logInv B log1"
                using IH[OF m1 rc1g wfx1(1) extends_trans[OF ext1 wfx1(2)]] .
              have inv01: "logInv B (log0 @ log1)" using inv0 inv1 by simp
              note H11 = H10[simplified rc1 case_rules]
              show ?thesis
              proof (cases r1)
                case None
                with H11 have "finish True t1 (log0 @ log1) = Some (err, log)" by simp
                then show ?thesis using wf1 ext1 inv01 by (rule finish_inv)
              next
                case (Some err1)
                note H12 = H11[simplified Some case_rules]
                show ?thesis
                proof (cases "timedOut tmo sch level (p @ [4]) err1")
                  case True
                  with H12 have "log = log0 @ log1" by simp
                  with inv01 show ?thesis by simp
                next
                  case False
                  note H14 = H12[simplified False case_rules]
                  obtain t2 where s2: "Set t1 line col 0 = Some t2"
                    using H14 by (cases "Set t1 line col 0") auto
                  have wf2: "wfBoard t2" using wf1 s2 by (rule Set_wfBoard)
                  have ext2: "extends B t2"
                    using extends_trans[OF ext1 Set_extends[OF s2 nd]] .
                  from H14 s2 have "finish True t2 (log0 @ log1) = Some (err, log)" by simp
                  then show ?thesis using wf2 ext2 inv01 by (rule finish_inv)
                qed
              qed
            qed
          next
            case (Some err0)
            note H8 = H7[simplified Some case_rules]
            show ?thesis
            proof (cases "timedOut tmo sch level (p @ [3]) err0")
              case True
              with H8 have "log = log0" by simp
              with inv0 show ?thesis by simp
            next
              case False
              note H10 = H8[simplified False case_rules]
              obtain t2 where s2: "Set t1 line col 1 = Some t2"
                using H10 by (cases "Set t1 line col 1") auto
              have wf2: "wfBoard t2" using wf1 s2 by (rule Set_wfBoard)
              have e12: "extends t1 t2" using s2 nd by (rule Set_extends)
              have ext2: "extends B t2" using extends_trans[OF ext1 e12] .
              note H11 = H10[simplified s2 case_rules]
              show ?thesis
              proof (cases g)
                case False
                note H12 = H11[simplified False case_rules]
                obtain e2 log2 where rc: "recurseSolve False tmo sl sch level (p @ [2]) t2 = Some (e2, log2)"
                  using H12 by (cases "recurseSolve False tmo sl sch level (p @ [2]) t2") auto
                have rcg: "recurseSolve g tmo sl sch level (p @ [2]) t2 = Some (e2, log2)"
                  using rc False by simp
                have m2: "undefCount t2 < undefCount t" using loop_measure(1)[OF ts fc s2] .
                have inv2: "logInv B log2" using IH[OF m2 rcg wf2 ext2] .
                from H12 rc have "log = log0 @ log2" by simp
                with inv0 inv2 show ?thesis by simp
              next
                case True
                note H12 = H11[simplified True case_rules]
                obtain tx where tv: "tryValue t2 line col 1 = Some tx"
                  using H12 by (cases "tryValue t2 line col 1") auto
                have v2: "Value (Board t2 ! line ! col) = 1"
                  using Set_cell[OF s2, of line col] by (simp add: SetCell_def)
                have wfx: "wfBoard tx" "extends t2 tx"
                  using tryValue_wf[OF wf2 tv] v2 by simp_all
                note H13 = H12[simplified tv case_rules]
                obtain r1 log1 where rc1: "recurseSolve True tmo sl sch (level + 1) (p @ [1]) tx = Some (r1, log1)"
                  using H13 by (cases "recurseSolve True tmo sl sch (level + 1) (p @ [1]) tx") auto
                have m1: "undefCount tx < undefCount t" using child2_measure[OF ts fc s2 tv] .
                have rc1g: "recurseSolve g tmo sl sch (level + 1) (p @ [1]) tx = Some (r1, log1)"
                  using rc1 True by simp
                have inv1: "logInv B log1"
                  using IH[OF m1 rc1g wfx(1) extends_trans[OF ext2 wfx(2)]] .
                have inv01: "logInv B (log0 @ log1)" using inv0 inv1 by simp
                note H14 = H13[simplified rc1 case_rules]
                show ?thesis
                proof (cases r1)
                  case None
                  with H14 have "finish True t2 (log0 @ log1) = Some (err, log)" by simp
                  then show ?thesis using wf2 ext2 inv01 by (rule finish_inv)
                next
                  case (Some err1)
                  note H15 = H14[simplified Some case_rules]
                  show ?thesis
                  proof (cases "timedOut tmo sch level (p @ [4]) err1")
                    case True
                    with H15 have "log = log0 @ log1" by simp
                    with inv01 show ?thesis by simp
                  next
                    case False
                    with H15 have "log = log0 @ log1" by (cases "Set t2 line col 0") auto
                    with inv01 show ?thesis by simp
                  qed
                qed
              qed
            qed
          qed
          qed
        qed
      qed
    qed
  qed
qed

lemma set_AList_update:
  "q \<in> set (AList.update k v al) \<Longrightarrow> q = (k, v) \<or> q \<in> set al"
  by (induction al) (auto split: if_splits)

lemma solutionMapOf_snoc:
  "solutionMapOf (log @ [(key, t)]) =
     (case key of None \<Rightarrow> solutionMapOf log | Some k \<Rightarrow> AList.update k t (solutionMapOf log))"
  by (simp add: solutionMapOf_def split: option.splits)

lemma solutionMapOf_inv: "logInv B log \<Longrightarrow> solInv B (solutionMapOf log)"
proof (induction log rule: rev_induct)
  case Nil
  show ?case by (simp add: solutionMapOf_def solInv_def)
next
  case (snoc w log)
  obtain key t where w: "w = (key, t)" by (cases w)
  from snoc.prems have il: "logInv B log" and iw: "logInv B [w]" by simp_all
  note ih = snoc.IH[OF il]
  show ?case
  proof (cases key)
    case None
    with ih w show ?thesis by (simp add: solutionMapOf_snoc)
  next
    case (Some k)
    from iw w Some have p: "ToString t = Some k" "wfBoard t" "Validate t = Some (True, None)"
      "extends B t" by (simp_all add: logInv_def)
    have m: "solutionMapOf (log @ [w]) = AList.update k t (solutionMapOf log)"
      using w Some by (simp add: solutionMapOf_snoc)
    have "distinct (map fst (solutionMapOf (log @ [w])))"
      unfolding m using ih by (simp add: solInv_def distinct_update)
    moreover have "ToString t' = Some k' \<and> wfBoard t' \<and> Validate t' = Some (True, None) \<and>
        extends B t'"
      if "(k', t') \<in> set (solutionMapOf (log @ [w]))" for k' t'
      using set_AList_update[OF that[unfolded m]] p ih by (auto simp: solInv_def)
    ultimately show ?thesis unfolding solInv_def by blast
  qed
qed

text \<open>
  With \<open>globalSearch\<close> a call leaves its collection loop early only to report a
  timeout, and a timeout reported by a child is reported by its parent.  So a call that
  does not report a timeout has received the status of every goroutine started under
  it: its result does not depend on \<open>landed\<close>, and all writes are done when
  \<open>TrySolveRecurse\<close> reads the variables.
\<close>

lemma timedOut_landed [simp]:
  "timedOut tmo (sch\<lparr>landed := f\<rparr>) level r e = timedOut tmo sch level r e"
  by (simp add: timedOut_def)

lemma collectSecond_landed [simp]:
  "collectSecond g tmo (sch\<lparr>landed := f\<rparr>) level p t line col v n err log =
   collectSecond g tmo sch level p t line col v n err log"
  by (cases err) (simp_all add: collectSecond_def)

lemma endOfCycle_no_timeout: "endOfCycle g t n log = Some (err, log') \<Longrightarrow> err \<noteq> Some Timeout"
  by (auto simp: endOfCycle_def finish_def split: if_splits option.splits)

lemma collectSecond_no_timeout:
  "collectSecond True tmo sch level p t line col v n e log = Some (err, log') \<Longrightarrow>
     err \<noteq> Some Timeout \<Longrightarrow> e \<noteq> Some Timeout"
  by (auto simp: collectSecond_def timedOut_def split: if_splits option.splits)

lemma collectBoth_joined:
  assumes "collectBoth True tmo sch level p t line col r0 r1 = Some (err, log)"
    "err \<noteq> Some Timeout"
  shows "collectBoth True tmo (sch\<lparr>landed := f\<rparr>) level p t line col r0 r1 = Some (err, log)"
    and "fst r0 \<noteq> Some Timeout" and "fst r1 \<noteq> Some Timeout"
  using assms
  by (auto simp: collectBoth_def Let_def case_prod_beta timedOut_def
      dest: collectSecond_no_timeout split: if_splits option.splits)


lemma timedOut_False_D: "\<not> timedOut tmo sch level r e \<Longrightarrow> Some e \<noteq> Some Timeout"
  by (simp add: timedOut_def)

lemma recurseSolve_joined:
  "recurseSolve True tmo sl sch level p t = Some (err, log) \<Longrightarrow> err \<noteq> Some Timeout \<Longrightarrow>
     recurseSolve True tmo sl (sch\<lparr>landed := f\<rparr>) level p t = Some (err, log)"
proof (induction "undefCount t" arbitrary: t level p err log rule: less_induct)
  case less
  let ?s = "sch\<lparr>landed := f\<rparr>"
  note H = less.prems(1) and nt = less.prems(2)
  note IH = less.hyps
  note H1 = H[unfolded recurseSolve.simps[of True tmo sl sch level p t]]
  obtain t1 full e where ts: "TrySolveTrivial t = Some (t1, full, e)"
    using H1 by (cases "TrySolveTrivial t") auto
  note H2 = H1[simplified ts case_rules]
  show ?case
  proof (cases e)
    case (Some ve)
    with H2 show ?thesis by (subst recurseSolve.simps) (simp add: ts)
  next
    case None
    note e = this
    note H3 = H2[simplified e case_rules]
    show ?thesis
    proof (cases full)
      case True
      with H3 show ?thesis by (subst recurseSolve.simps) (simp add: ts e)
    next
      case False
      note nf = this
      note H4 = H3[simplified False case_rules]
      show ?thesis
      proof (cases "firstClear t1")
        case None
        with H4 show ?thesis by simp
      next
        case (Some fc)
        note fcs = this
        show ?thesis
        proof (cases fc)
          case None
          with H4 fcs show ?thesis by (subst recurseSolve.simps) (simp add: ts e nf)
        next
          case (Some q)
          obtain line col where q: "q = (line, col)" by (cases q)
          have fc: "firstClear t1 = Some (Some (line, col))" using fcs Some q by simp
          note H5 = H4[simplified fc case_rules]
          show ?thesis
          proof (cases "int level < sint sl")
            case True
            note lv = this
            note S1 = H5[simplified True case_rules]
            obtain tx0 where tv0: "tryValue t1 line col 0 = Some tx0"
              using S1 by (cases "tryValue t1 line col 0") auto
            note S2 = S1[simplified tv0 case_rules]
            obtain tx1 where tv1: "tryValue t1 line col 1 = Some tx1"
              using S2 by (cases "tryValue t1 line col 1") auto
            note S3 = S2[simplified tv1 case_rules]
            obtain r0 where rc0: "recurseSolve True tmo sl sch (level + 1) (p @ [0]) tx0 = Some r0"
              using S3 by (cases "recurseSolve True tmo sl sch (level + 1) (p @ [0]) tx0") auto
            note S4 = S3[simplified rc0 case_rules]
            obtain r1 where rc1: "recurseSolve True tmo sl sch (level + 1) (p @ [1]) tx1 = Some r1"
              using S4 by (cases "recurseSolve True tmo sl sch (level + 1) (p @ [1]) tx1") auto
            note S5 = S4[simplified rc1 case_rules]
            note cb = collectBoth_joined[OF S5 nt]
            have m0: "undefCount tx0 < undefCount t" using child_measure[OF ts fc tv0] by simp
            have m1: "undefCount tx1 < undefCount t" using child_measure[OF ts fc tv1] by simp
            have rc0': "recurseSolve True tmo sl sch (level + 1) (p @ [0]) tx0 = Some (fst r0, snd r0)"
              using rc0 by simp
            have rc1': "recurseSolve True tmo sl sch (level + 1) (p @ [1]) tx1 = Some (fst r1, snd r1)"
              using rc1 by simp
            have c0: "recurseSolve True tmo sl ?s (Suc level) (p @ [0]) tx0 = Some r0"
              using IH[OF m0 rc0' cb(2)] by simp
            have c1: "recurseSolve True tmo sl ?s (Suc level) (p @ [1]) tx1 = Some r1"
              using IH[OF m1 rc1' cb(3)] by simp
            from c0 c1 cb(1) show ?thesis
              by (subst recurseSolve.simps) (simp add: ts e nf fc lv tv0 tv1)
          next
            case False
            note lv = this
            note H5 = H5[simplified False case_rules]
            obtain tx0 where tv0: "tryValue t1 line col 0 = Some tx0"
              using H5 by (cases "tryValue t1 line col 0") auto
            note H6 = H5[simplified tv0 case_rules]
            obtain r0 log0 where
              rc0: "recurseSolve True tmo sl sch (level + 1) (p @ [0]) tx0 = Some (r0, log0)"
              using H6 by (cases "recurseSolve True tmo sl sch (level + 1) (p @ [0]) tx0") auto
            have m0: "undefCount tx0 < undefCount t" using child_measure[OF ts fc tv0] by simp
            note H7 = H6[simplified rc0 case_rules]
            show ?thesis
            proof (cases r0)
              case None
              note r0n = this
              note H8 = H7[simplified None case_rules]
              have c0: "recurseSolve True tmo sl ?s (Suc level) (p @ [0]) tx0 = Some (None, log0)"
                using IH[OF m0 rc0] None by simp
              obtain tx1 where tv1: "tryValue t1 line col 1 = Some tx1"
                using H8 by (cases "tryValue t1 line col 1") auto
              note H10 = H8[simplified tv1 case_rules]
              obtain r1 log1 where
                rc1: "recurseSolve True tmo sl sch (level + 1) (p @ [1]) tx1 = Some (r1, log1)"
                using H10 by (cases "recurseSolve True tmo sl sch (level + 1) (p @ [1]) tx1") auto
              have m1: "undefCount tx1 < undefCount t" using child_measure[OF ts fc tv1] by simp
              note H11 = H10[simplified rc1 case_rules]
              show ?thesis
              proof (cases r1)
                case None
                have c1: "recurseSolve True tmo sl ?s (Suc level) (p @ [1]) tx1 = Some (None, log1)"
                  using IH[OF m1 rc1] None by simp
                from H11 None c0 c1 show ?thesis
                  by (subst recurseSolve.simps) (simp add: ts e nf fc lv tv0 tv1)
              next
                case (Some err1)
                note H12 = H11[simplified Some case_rules]
                show ?thesis
                proof (cases "timedOut tmo sch level (p @ [4]) err1")
                  case True
                  with H12 nt show ?thesis by simp
                next
                  case False
                  have c1: "recurseSolve True tmo sl ?s (Suc level) (p @ [1]) tx1 = Some (Some err1, log1)"
                    using IH[OF m1 rc1] Some timedOut_False_D[OF False] by simp
                  from H12 False c0 c1 show ?thesis
                    by (subst recurseSolve.simps) (simp add: ts e nf fc lv tv0 tv1)
                qed
              qed
            next
              case (Some err0)
              note H8 = H7[simplified Some case_rules]
              show ?thesis
              proof (cases "timedOut tmo sch level (p @ [3]) err0")
                case True
                with H8 nt show ?thesis by simp
              next
                case False
                note to0 = this
                have c0: "recurseSolve True tmo sl ?s (Suc level) (p @ [0]) tx0 = Some (Some err0, log0)"
                  using IH[OF m0 rc0] Some timedOut_False_D[OF False] by simp
                note H10 = H8[simplified False case_rules]
                obtain t2 where s2: "Set t1 line col 1 = Some t2"
                  using H10 by (cases "Set t1 line col 1") auto
                note H12 = H10[simplified s2 case_rules]
                obtain tx where tv: "tryValue t2 line col 1 = Some tx"
                  using H12 by (cases "tryValue t2 line col 1") auto
                note H13 = H12[simplified tv case_rules]
                obtain r1 log1 where
                  rc1: "recurseSolve True tmo sl sch (level + 1) (p @ [1]) tx = Some (r1, log1)"
                  using H13 by (cases "recurseSolve True tmo sl sch (level + 1) (p @ [1]) tx") auto
                have m1: "undefCount tx < undefCount t" using child2_measure[OF ts fc s2 tv] .
                note H14 = H13[simplified rc1 case_rules]
                show ?thesis
                proof (cases r1)
                  case None
                  have c1: "recurseSolve True tmo sl ?s (Suc level) (p @ [1]) tx = Some (None, log1)"
                    using IH[OF m1 rc1] None by simp
                  from H14 None c0 c1 show ?thesis
                    by (subst recurseSolve.simps) (simp add: ts e nf fc lv tv0 to0 s2 tv)
                next
                  case (Some err1)
                  note H15 = H14[simplified Some case_rules]
                  show ?thesis
                  proof (cases "timedOut tmo sch level (p @ [4]) err1")
                    case True
                    with H15 nt show ?thesis by simp
                  next
                    case False
                    have c1: "recurseSolve True tmo sl ?s (Suc level) (p @ [1]) tx
                                = Some (Some err1, log1)"
                      using IH[OF m1 rc1] Some timedOut_False_D[OF False] by simp
                    from H15 False c0 c1 show ?thesis
                      by (subst recurseSolve.simps) (simp add: ts e nf fc lv tv0 to0 s2 tv)
                  qed
                qed
              qed
            qed
          qed
        qed
      qed
    qed
  qed
qed

text \<open>
  Claim C3.  Let \<open>TrySolveRecurse\<close> run on a well-formed board \<open>B\<close> with an accumulator,
  at any Schroedinger level and under any schedule, the map being read in any order,
  and return an error other than a timeout or none.  Then the accumulator has grown by
  boards with pairwise distinct encodings; each has the size of \<open>B\<close>, has every cell
  defined, passes \<open>Validate\<close> as a full board without error, and holds the value of \<open>B\<close>
  wherever \<open>B\<close> has a defined cell.
\<close>

theorem TrySolveRecurse_all:
  assumes wf: "wfBoard B"
    and perm: "\<forall>m. mset (mapOrder m) = mset m"
    and run: "TrySolveRecurse mapOrder sch schrodLvl B (Some acc) timeout = Some ((sol, err), acc')"
    and nt: "err \<noteq> Some Timeout"
  shows "\<exists>new. acc' = Some (acc @ new) \<and> distinct (map ToString new) \<and>
           (\<forall>t\<in>set new.
              (\<exists>k. ToString t = Some k) \<and> Size t = Size B \<and>
              (\<forall>l<Size B. \<forall>c<Size B. Defined (Board t ! l ! c)) \<and>
              Validate t = Some (True, None) \<and>
              (\<forall>l<Size B. \<forall>c<Size B. Defined (Board B ! l ! c) \<longrightarrow>
                 Defined (Board t ! l ! c) \<and> Value (Board t ! l ! c) = Value (Board B ! l ! c)))"
proof -
  from run obtain e log where rs: "recurseSolve True timeout schrodLvl sch 0 [] B = Some (e, log)"
    and acc': "acc' = Some (acc @ map snd (mapOrder (solutionMapOf log)))"
    by (auto simp: TrySolveRecurse_def Let_def split: option.splits list.splits)
  from recurseSolve_inv[OF rs wf extends_refl] have "logInv B log" .
  then have inv: "solInv B (solutionMapOf log)" by (rule solutionMapOf_inv)
  let ?m = "solutionMapOf log"
  let ?xs = "mapOrder ?m"
  from perm have ms: "mset ?xs = mset ?m" by blast
  then have set_eq: "set ?xs = set ?m" by (rule mset_eq_setD)
  from ms have "mset (map fst ?xs) = mset (map fst ?m)" by (metis mset_map)
  then have dk: "distinct (map fst ?xs)"
    using inv mset_eq_imp_distinct_iff[of "map fst ?xs" "map fst ?m"] by (simp add: solInv_def)
  have ent: "ToString t = Some k \<and> wfBoard t \<and> Validate t = Some (True, None) \<and> extends B t"
    if "(k, t) \<in> set ?xs" for k t
    using that inv set_eq by (auto simp: solInv_def)
  have eq: "map ToString (map snd ?xs) = map Some (map fst ?xs)"
    using ent by (auto intro!: map_cong[OF refl] simp: case_prod_beta)
  have d: "distinct (map ToString (map snd ?xs))"
    unfolding eq using dk by (auto simp: distinct_map inj_on_def)
  have props: "(\<exists>k. ToString t = Some k) \<and> Size t = Size B \<and>
              (\<forall>l<Size B. \<forall>c<Size B. Defined (Board t ! l ! c)) \<and>
              Validate t = Some (True, None) \<and>
              (\<forall>l<Size B. \<forall>c<Size B. Defined (Board B ! l ! c) \<longrightarrow>
                 Defined (Board t ! l ! c) \<and> Value (Board t ! l ! c) = Value (Board B ! l ! c))"
    if "t \<in> set (map snd ?xs)" for t
  proof -
    from that obtain k where "(k, t) \<in> set ?xs" by auto
    from ent[OF this] have k: "ToString t = Some k" and wt: "wfBoard t"
      and v: "Validate t = Some (True, None)" and ex: "extends B t" by simp_all
    have sz: "Size t = Size B" using ex by (rule extends_Size)
    have full: "Defined (Board t ! l ! c)" if "l < Size B" "c < Size B" for l c
      using Validate_full[OF wfBoard_shape[OF wt] v] that sz by simp
    have agree: "Value (Board t ! l ! c) = Value (Board B ! l ! c)"
      if "l < Size B" "c < Size B" "Defined (Board B ! l ! c)" for l c
    proof -
      have "defAt B l c" using that wfBoard_shape[OF wf]
        by (simp add: defAt_def wfShape_length wfShape_row)
      with ex show ?thesis by (simp add: extends_def)
    qed
    show ?thesis using k sz full v agree by blast
  qed
  show ?thesis using acc' d props by blast
qed

text \<open>A 4x4 puzzle with four solutions.\<close>

definition puzzleMany :: Takuzu where
  "puzzleMany = \<lparr>Size = 4, Board = map (map cellOf) [''0110'', ''1001'', ''....'', ''....'']\<rparr>"

text \<open>A board written as its rows.\<close>

definition boardOf :: "string list \<Rightarrow> Takuzu" where
  "boardOf rows = \<lparr>Size = length rows, Board = map (map cellOf) rows\<rparr>"

text \<open>
  A schedule for two concurrent levels: the status of the value 1 arrives first, and
  the writes of the two goroutines alternate, starting with the one that finishes last.
\<close>

definition scheduleOneFirst :: schedule where
  "scheduleOneFirst = \<lparr>expired = (\<lambda>r. False), oneFirst = (\<lambda>p. True),
     writeOrder = (\<lambda>p. [True, False, True, False]), landed = (\<lambda>p. 0)\<rparr>"

lemma puzzleMany_wf: "wfBoard puzzleMany"
  by (simp add: wfBoard_def wfShape_def puzzleMany_def validCells_def cellOf_def decodeChar_def
      zeroCell_def)

lemma puzzleMany_run:
  "TrySolveRecurse (\<lambda>m. m) scheduleOneFirst 2 puzzleMany (Some []) 0 =
     Some ((Some (boardOf [''0110'', ''1001'', ''0011'', ''1100'']), None),
           Some [boardOf [''0110'', ''1001'', ''0011'', ''1100''],
                 boardOf [''0110'', ''1001'', ''1010'', ''0101''],
                 boardOf [''0110'', ''1001'', ''0101'', ''1010''],
                 boardOf [''0110'', ''1001'', ''1100'', ''0011'']])"
  by code_simp

theorem TrySolveRecurse_all_witness:
  "wfBoard puzzleMany \<and>
   (\<forall>m :: (string \<times> Takuzu) list. mset ((\<lambda>m. m) m) = mset m) \<and>
   TrySolveRecurse (\<lambda>m. m) scheduleOneFirst 2 puzzleMany (Some []) 0 =
     Some ((Some (boardOf [''0110'', ''1001'', ''0011'', ''1100'']), None),
           Some [boardOf [''0110'', ''1001'', ''0011'', ''1100''],
                 boardOf [''0110'', ''1001'', ''1010'', ''0101''],
                 boardOf [''0110'', ''1001'', ''0101'', ''1010''],
                 boardOf [''0110'', ''1001'', ''1100'', ''0011'']]) \<and>
   (None :: solveError option) \<noteq> Some Timeout \<and>
   distinct (map ToString
      [boardOf [''0110'', ''1001'', ''0011'', ''1100''],
       boardOf [''0110'', ''1001'', ''1010'', ''0101''],
       boardOf [''0110'', ''1001'', ''0101'', ''1010''],
       boardOf [''0110'', ''1001'', ''1100'', ''0011'']]) \<and>
   Validate (boardOf [''0110'', ''1001'', ''1100'', ''0011'']) = Some (True, None)"
proof -
  let ?sols = "[boardOf [''0110'', ''1001'', ''0011'', ''1100''],
                 boardOf [''0110'', ''1001'', ''1010'', ''0101''],
                 boardOf [''0110'', ''1001'', ''0101'', ''1010''],
                 boardOf [''0110'', ''1001'', ''1100'', ''0011'']]"
  have perm: "\<forall>m :: (string \<times> Takuzu) list. mset ((\<lambda>m. m) m) = mset m" by simp
  have nt: "(None :: solveError option) \<noteq> Some Timeout" by simp
  from TrySolveRecurse_all[OF puzzleMany_wf perm puzzleMany_run nt]
  obtain new where n: "Some ?sols = Some ([] @ new)" and d: "distinct (map ToString new)"
    and p: "\<forall>t\<in>set new. Validate t = Some (True, None)" by blast
  from n have new: "new = ?sols" by simp
  from d new have d': "distinct (map ToString ?sols)" by simp
  from p new have "Validate (boardOf [''0110'', ''1001'', ''1100'', ''0011'']) = Some (True, None)"
    by simp
  with puzzleMany_wf perm puzzleMany_run nt d' show ?thesis by blast
qed

section \<open>\<open>guessPos\<close> on a store\<close>

text \<open>
  Whether a method changes the caller's board depends on which arrays its boards
  share.  Here the cells of a board live in a store; a \<open>Takuzu\<close> value is its size and
  the address of its grid (the slice \<open>Board\<close>), so that a copy of the value, such as a
  method receiver, shares the cells, and \<open>Clone\<close> allocates a grid at a new address.
\<close>

record TakuzuRef =
  RSize :: nat
  RBoard :: nat

type_synonym store = "Cell list list list"

text \<open>The board a value denotes; \<open>None\<close> when its address is not allocated.\<close>

definition deref :: "store \<Rightarrow> TakuzuRef \<Rightarrow> Takuzu option" where
  "deref h r =
     (if RBoard r < length h then Some \<lparr>Size = RSize r, Board = h ! RBoard r\<rparr> else None)"

text \<open>
  A method that writes cells, run on the board at the address of \<open>r\<close>: the grid there
  is replaced by the one the method leaves.
\<close>

definition onBoard :: "(Takuzu \<Rightarrow> Takuzu option) \<Rightarrow> store \<Rightarrow> TakuzuRef \<Rightarrow> store option" where
  "onBoard f h r =
     (case deref h r of
        None \<Rightarrow> None
      | Some t \<Rightarrow> (case f t of None \<Rightarrow> None | Some t' \<Rightarrow> Some (h[RBoard r := Board t'])))"

text \<open>\<open>Clone\<close> allocates the copy at the next free address.\<close>

definition Clone_s :: "store \<Rightarrow> TakuzuRef \<Rightarrow> (TakuzuRef \<times> store) option" where
  "Clone_s h b =
     (case deref h b of
        None \<Rightarrow> None
      | Some t \<Rightarrow>
          (case Clone t of
             None \<Rightarrow> None
           | Some c \<Rightarrow> Some (\<lparr>RSize = Size c, RBoard = length h\<rparr>, h @ [Board c])))"

text \<open>\<open>Copy(src, dst)\<close> writes the cells of \<open>dst\<close>.\<close>

definition Copy_s :: "store \<Rightarrow> TakuzuRef \<Rightarrow> TakuzuRef \<Rightarrow> store option" where
  "Copy_s h src dst =
     (case deref h src of
        None \<Rightarrow> None
      | Some s \<Rightarrow>
          (case deref h dst of
             None \<Rightarrow> None
           | Some d \<Rightarrow>
               (case Copy s d of
                  None \<Rightarrow> None
                | Some (err, d') \<Rightarrow> Some (h[RBoard dst := Board d']))))"

definition lineOrColumnFails_s :: "store \<Rightarrow> TakuzuRef \<Rightarrow> nat \<Rightarrow> nat \<Rightarrow> bool option" where
  "lineOrColumnFails_s h bx l c =
     (case deref h bx of None \<Rightarrow> None | Some t \<Rightarrow> lineOrColumnFails t l c)"

text \<open>
  \<open>guessPos\<close>, statement by statement: \<open>bx := b.Clone()\<close>, then \<open>Set\<close>,
  \<open>FillLineColumn\<close>, the checks, \<open>Copy(&b, &bx)\<close>, all on \<open>bx\<close>.
\<close>

definition guessPos_s :: "store \<Rightarrow> TakuzuRef \<Rightarrow> nat \<Rightarrow> nat \<Rightarrow> (int \<times> store) option" where
  "guessPos_s h b l c =
     (case deref h b of
        None \<Rightarrow> None
      | Some t \<Rightarrow>
          if \<not> (l < length (Board t) \<and> c < length (Board t ! l)) then None
          else if Defined (Board t ! l ! c) then Some (Value (Board t ! l ! c), h)
          else
            (case Clone_s h b of None \<Rightarrow> None | Some (bx, h) \<Rightarrow>
             (case onBoard (\<lambda>t. Set t l c 0) h bx of None \<Rightarrow> None | Some h \<Rightarrow>
              (case onBoard (\<lambda>t. FillLineColumn t l c) h bx of None \<Rightarrow> None | Some h \<Rightarrow>
               (case lineOrColumnFails_s h bx l c of None \<Rightarrow> None
                | Some True \<Rightarrow> Some (1, h)
                | Some False \<Rightarrow>
                   (case Copy_s h b bx of None \<Rightarrow> None | Some h \<Rightarrow>
                    (case onBoard (\<lambda>t. Set t l c 1) h bx of None \<Rightarrow> None | Some h \<Rightarrow>
                     (case onBoard (\<lambda>t. FillLineColumn t l c) h bx of None \<Rightarrow> None | Some h \<Rightarrow>
                      (case lineOrColumnFails_s h bx l c of None \<Rightarrow> None
                       | Some True \<Rightarrow> Some (0, h)
                       | Some False \<Rightarrow> Some (- 1, h))))))))))"

text \<open>
  \<open>TrivialHint\<close>: the first undefined cell, in row-major order, for which \<open>guessPos\<close>
  finds a value; \<open>(-1, -1, -1)\<close> when there is none.
\<close>

fun TrivialHint_loop ::
  "(nat \<times> nat) list \<Rightarrow> store \<Rightarrow> TakuzuRef \<Rightarrow> ((int \<times> int \<times> int) \<times> store) option" where
  "TrivialHint_loop [] h b = Some ((- 1, - 1, - 1), h)"
| "TrivialHint_loop ((line, col) # rest) h b =
     (case deref h b of
        None \<Rightarrow> None
      | Some t \<Rightarrow>
          if \<not> (line < length (Board t) \<and> col < length (Board t ! line)) then None
          else if Defined (Board t ! line ! col) then TrivialHint_loop rest h b
          else
            (case guessPos_s h b line col of
               None \<Rightarrow> None
             | Some (v, h') \<Rightarrow>
                 if v \<noteq> - 1 then Some ((int line, int col, v), h')
                 else TrivialHint_loop rest h' b))"

definition TrivialHint_s :: "store \<Rightarrow> TakuzuRef \<Rightarrow> ((int \<times> int \<times> int) \<times> store) option" where
  "TrivialHint_s h b = TrivialHint_loop (List.product [0..<RSize b] [0..<RSize b]) h b"

lemma onBoard_update: "onBoard f h r = Some h' \<Longrightarrow> \<exists>g. h' = h[RBoard r := g]"
  by (auto simp: onBoard_def split: option.splits)

lemma Copy_s_update: "Copy_s h src dst = Some h' \<Longrightarrow> \<exists>g. h' = h[RBoard dst := g]"
  by (auto simp: Copy_s_def split: option.splits)

lemma Clone_s_fresh:
  "Clone_s h b = Some (bx, h') \<Longrightarrow> RBoard bx = length h \<and> (\<exists>g. h' = h @ [g])"
  by (auto simp: Clone_s_def split: option.splits)

lemma guessPos_s_frame:
  assumes "guessPos_s h b l c = Some (g, h')"
  shows "take (length h) h' = h"
proof -
  from assms obtain t where d: "deref h b = Some t"
    by (cases "deref h b") (auto simp: guessPos_s_def)
  note H1 = assms[unfolded guessPos_s_def, simplified d case_rules]
  show ?thesis
  proof (cases "Defined (Board t ! l ! c)")
    case True
    with H1 have "h' = h" by (auto split: if_splits)
    then show ?thesis by simp
  next
    case False
    from H1 have rng: "l < length (Board t) \<and> c < length (Board t ! l)" by (auto split: if_splits)
    note H2 = H1[simplified rng False case_rules]
    obtain bx h1 where cl: "Clone_s h b = Some (bx, h1)"
      using H2 by (cases "Clone_s h b") auto
    from Clone_s_fresh[OF cl] obtain g0 where bx: "RBoard bx = length h" and h1: "h1 = h @ [g0]"
      by blast
    note H3 = H2[simplified cl case_rules]
    obtain h2 where s0: "onBoard (\<lambda>t. Set t l c 0) h1 bx = Some h2"
      using H3 by (cases "onBoard (\<lambda>t. Set t l c 0) h1 bx") auto
    note H4 = H3[simplified s0 case_rules]
    obtain h3 where f0: "onBoard (\<lambda>t. FillLineColumn t l c) h2 bx = Some h3"
      using H4 by (cases "onBoard (\<lambda>t. FillLineColumn t l c) h2 bx") auto
    note H5 = H4[simplified f0 case_rules]
    from onBoard_update[OF s0] onBoard_update[OF f0] bx h1
    have k3: "take (length h) h3 = h" by auto
    obtain r0 where c0: "lineOrColumnFails_s h3 bx l c = Some r0"
      using H5 by (cases "lineOrColumnFails_s h3 bx l c") auto
    note H6 = H5[simplified c0 case_rules]
    show ?thesis
    proof (cases r0)
      case True
      with H6 have "h' = h3" by simp
      with k3 show ?thesis by simp
    next
      case False
      note H7 = H6[simplified False case_rules]
      obtain h4 where cp: "Copy_s h3 b bx = Some h4"
        using H7 by (cases "Copy_s h3 b bx") auto
      note H8 = H7[simplified cp case_rules]
      obtain h5 where s1: "onBoard (\<lambda>t. Set t l c 1) h4 bx = Some h5"
        using H8 by (cases "onBoard (\<lambda>t. Set t l c 1) h4 bx") auto
      note H9 = H8[simplified s1 case_rules]
      obtain h6 where f1: "onBoard (\<lambda>t. FillLineColumn t l c) h5 bx = Some h6"
        using H9 by (cases "onBoard (\<lambda>t. FillLineColumn t l c) h5 bx") auto
      note H10 = H9[simplified f1 case_rules]
      from Copy_s_update[OF cp] onBoard_update[OF s1] onBoard_update[OF f1] bx k3
      have k6: "take (length h) h6 = h" by auto
      from H10 have "h' = h6"
        by (cases "lineOrColumnFails_s h6 bx l c") (auto split: bool.splits)
      with k6 show ?thesis by simp
    qed
  qed
qed

lemma FillLineColumn_Size: "FillLineColumn b l c = Some b' \<Longrightarrow> Size b' = Size b"
  by (auto simp: FillLineColumn_def Let_def split: if_splits option.splits)

lemma Copy_Size: "Copy src dst = Some (err, d') \<Longrightarrow> Size d' = Size dst"
  by (auto simp: Copy_def split: if_splits)

text \<open>On the store, \<open>guessPos\<close> returns what it returns on the board as a value.\<close>

lemma guessPos_s_refines:
  assumes d: "deref h b = Some t"
  shows "map_option fst (guessPos_s h b l c) = guessPos t l c"
proof (cases "l < length (Board t) \<and> c < length (Board t ! l)")
  case False
  then show ?thesis by (simp add: guessPos_s_def guessPos_def d)
next
  case rng: True
  show ?thesis
  proof (cases "Defined (Board t ! l ! c)")
    case True
    then show ?thesis using rng by (simp add: guessPos_s_def guessPos_def d)
  next
    case nd: False
    define n where "n = length h"
    from d have bn: "RBoard b < n" and tb: "t = \<lparr>Size = RSize b, Board = h ! RBoard b\<rparr>"
      by (auto simp: deref_def n_def split: if_splits)
    show ?thesis
    proof (cases "Clone t")
      case None
      then have "Clone_s h b = None" by (simp add: Clone_s_def d)
      then show ?thesis using rng nd None by (simp add: guessPos_s_def guessPos_def d)
    next
      case (Some x0)
      define bx where "bx = \<lparr>RSize = Size x0, RBoard = n\<rparr>"
      have cl: "Clone_s h b = Some (bx, h @ [Board x0])"
        by (simp add: Clone_s_def d Some bx_def n_def)
      define Rel where
        "Rel = (\<lambda>(hk :: store) (x :: Takuzu). length hk = Suc n \<and> take n hk = h \<and> hk ! n = Board x \<and> Size x = Size x0)"
      have rel0: "Rel (h @ [Board x0]) x0" by (simp add: Rel_def n_def)
      have deref_bx: "deref hk bx = Some x" if "Rel hk x" for hk x
        using that by (simp add: Rel_def deref_def bx_def)
      have deref_b: "deref hk b = Some t" if "Rel hk x" for hk x
      proof -
        from that have "take n hk ! RBoard b = h ! RBoard b" by (simp add: Rel_def)
        then have "hk ! RBoard b = h ! RBoard b" using bn by simp
        then show ?thesis using that bn tb by (simp add: Rel_def deref_def)
      qed
      have rel_upd: "Rel (hk[n := Board y]) y" if "Rel hk x" "Size y = Size x0" for hk x y
        using that by (simp add: Rel_def)
      have on: "onBoard f hk bx = map_option (\<lambda>y. hk[n := Board y]) (f x)" if "Rel hk x" for f hk x
        using deref_bx[OF that] by (cases "f x") (simp_all add: onBoard_def bx_def)
      have fails: "lineOrColumnFails_s hk bx l c = lineOrColumnFails x l c" if "Rel hk x" for hk x
        using deref_bx[OF that] by (simp add: lineOrColumnFails_s_def)
      have cp: "Copy_s hk b bx = map_option (\<lambda>(err, y). hk[n := Board y]) (Copy t x)"
        if "Rel hk x" for hk x
        using deref_bx[OF that] deref_b[OF that]
        by (cases "Copy t x") (auto simp: Copy_s_def bx_def)
      note start = guessPos_s_def guessPos_def d rng nd cl Some
      show ?thesis
      proof (cases "Set x0 l c 0")
        case None
        then show ?thesis by (simp add: start on[OF rel0])
      next
        case (Some x1)
        note s0 = this
        have r1: "Rel ((h @ [Board x0])[n := Board x1]) x1"
          using rel0 Set_Size[OF s0] by (intro rel_upd) simp_all
        show ?thesis
        proof (cases "FillLineColumn x1 l c")
          case None
          then show ?thesis by (simp add: start on[OF rel0] s0 on[OF r1])
        next
          case (Some x2)
          note f0 = this
          have r2: "Rel ((h @ [Board x0])[n := Board x2]) x2"
            using rel_upd[OF r1, of x2] FillLineColumn_Size[OF f0] Set_Size[OF s0] by simp
          note st2 = start on[OF rel0] s0 on[OF r1] f0 fails[OF r2]
          show ?thesis
          proof (cases "lineOrColumnFails x2 l c")
            case None
            then show ?thesis by (simp add: st2)
          next
            case (Some r0)
            note c0 = this
            show ?thesis
            proof (cases r0)
              case True
              then show ?thesis by (simp add: st2 c0)
            next
              case False
              note nf = this
              show ?thesis
              proof (cases "Copy t x2")
                case None
                then show ?thesis by (simp add: st2 c0 nf cp[OF r2])
              next
                case (Some p)
                obtain err x3 where p: "p = (err, x3)" by (cases p)
                note c3 = Some[unfolded p]
                have sz3: "Size x3 = Size x0"
                  using Copy_Size[OF c3] FillLineColumn_Size[OF f0] Set_Size[OF s0] by simp
                have r3: "Rel ((h @ [Board x0])[n := Board x3]) x3"
                  using rel_upd[OF r2 sz3] by simp
                note st3 = st2 c0 nf cp[OF r2] c3 on[OF r3]
                show ?thesis
                proof (cases "Set x3 l c 1")
                  case None
                  then show ?thesis by (simp add: st3)
                next
                  case (Some x4)
                  note s1 = this
                  have sz4: "Size x4 = Size x0" using Set_Size[OF s1] sz3 by simp
                  have r4: "Rel ((h @ [Board x0])[n := Board x4]) x4"
                    using rel_upd[OF r3 sz4] by simp
                  note st4 = st3 s1 on[OF r4]
                  show ?thesis
                  proof (cases "FillLineColumn x4 l c")
                    case None
                    then show ?thesis by (simp add: st4)
                  next
                    case (Some x5)
                    note f1 = this
                    have sz5: "Size x5 = Size x0" using FillLineColumn_Size[OF f1] sz4 by simp
                    have r5: "Rel ((h @ [Board x0])[n := Board x5]) x5"
                      using rel_upd[OF r4 sz5] by simp
                    show ?thesis
                      by (cases "lineOrColumnFails x5 l c")
                         (auto simp: st4 f1 fails[OF r5] split: bool.splits)
                  qed
                qed
              qed
            qed
          qed
        qed
      qed
    qed
  qed
qed

lemma take_keeps_length: "take n xs = h \<Longrightarrow> n = length h \<Longrightarrow> length h \<le> length xs"
  by (metis length_take min.cobounded2 min_def nat_le_linear)

lemma TrivialHint_loop_frame:
  "TrivialHint_loop ps h b = Some (r, h') \<Longrightarrow> take (length h) h' = h"
proof (induction ps arbitrary: h)
  case Nil
  then show ?case by simp
next
  case (Cons p ps)
  obtain line col where p: "p = (line, col)" by (cases p)
  note H0 = Cons.prems[unfolded p]
  from H0 obtain t where d: "deref h b = Some t"
    by (cases "deref h b") auto
  from H0 d have rng: "line < length (Board t) \<and> col < length (Board t ! line)"
    by (auto split: if_splits)
  show ?case
  proof (cases "Defined (Board t ! line ! col)")
    case True
    with H0 d rng have "TrivialHint_loop ps h b = Some (r, h')" by simp
    then show ?thesis by (rule Cons.IH)
  next
    case False
    from H0 d rng False obtain v h1 where g: "guessPos_s h b line col = Some (v, h1)"
      by (cases "guessPos_s h b line col") auto
    have k1: "take (length h) h1 = h" using g by (rule guessPos_s_frame)
    show ?thesis
    proof (cases "v = - 1")
      case False
      with H0 d rng \<open>\<not> Defined (Board t ! line ! col)\<close> g have "h' = h1" by simp
      with k1 show ?thesis by simp
    next
      case True
      with H0 d rng \<open>\<not> Defined (Board t ! line ! col)\<close> g
      have "TrivialHint_loop ps h1 b = Some (r, h')" by simp
      then have k2: "take (length h1) h' = h1" by (rule Cons.IH)
      have le: "length h \<le> length h1" using k1 by (rule take_keeps_length) simp
      have "take (length h) h' = take (length h) (take (length h1) h')"
        using le by (simp add: min_def)
      then show ?thesis using k1 k2 by simp
    qed
  qed
qed

lemma frame_deref:
  assumes "take (length h) h' = h" "deref h b = Some t"
  shows "deref h' b = Some t" "\<forall>a<length h. h' ! a = h ! a"
proof -
  have le: "length h \<le> length h'" using assms(1) by (rule take_keeps_length) simp
  show nth: "\<forall>a<length h. h' ! a = h ! a"
  proof (intro allI impI)
    fix a assume "a < length h"
    then have "take (length h) h' ! a = h' ! a" by simp
    then show "h' ! a = h ! a" using assms(1) by simp
  qed
  from assms(2) have "RBoard b < length h" by (auto simp: deref_def split: if_splits)
  then show "deref h' b = Some t" using assms(2) nth le by (auto simp: deref_def split: if_splits)
qed

lemma TrivialHint_loop_dangling:
  "TrivialHint_loop ps h b = Some (r, h') \<Longrightarrow> deref h b = None \<Longrightarrow> h' = h"
  by (cases ps) auto

text \<open>
  Claim C10.  When \<open>guessPos\<close> returns, the board of the caller denotes the same board
  as before, every grid that was in the store is unchanged, and the value returned is
  that of \<open>guessPos\<close> on that board.  The same holds when \<open>TrivialHint\<close> returns.
\<close>

theorem guessPos_leaves_board:
  "(guessPos_s h b l c = Some (g, h') \<longrightarrow>
      deref h' b = deref h b \<and> (\<forall>a<length h. h' ! a = h ! a) \<and>
      (\<exists>t. deref h b = Some t \<and> guessPos t l c = Some g))
   \<and> (TrivialHint_s h b = Some (r, h'') \<longrightarrow>
      deref h'' b = deref h b \<and> (\<forall>a<length h. h'' ! a = h ! a))"
proof (intro conjI impI)
  assume g: "guessPos_s h b l c = Some (g, h')"
  then obtain t where d: "deref h b = Some t"
    by (cases "deref h b") (auto simp: guessPos_s_def)
  note k = guessPos_s_frame[OF g]
  from guessPos_s_refines[OF d, of l c] g have p: "guessPos t l c = Some g" by simp
  show "deref h' b = deref h b" using frame_deref(1)[OF k d] d by simp
  show "\<forall>a<length h. h' ! a = h ! a" using frame_deref(2)[OF k d] .
  show "\<exists>t. deref h b = Some t \<and> guessPos t l c = Some g" using d p by blast
next
  assume th: "TrivialHint_s h b = Some (r, h'')"
  then have k: "take (length h) h'' = h"
    unfolding TrivialHint_s_def by (rule TrivialHint_loop_frame)
  show "deref h'' b = deref h b"
  proof (cases "deref h b")
    case (Some t)
    with frame_deref(1)[OF k Some] show ?thesis by simp
  next
    case None
    with th have "h'' = h" unfolding TrivialHint_s_def by (rule TrivialHint_loop_dangling)
    then show ?thesis by simp
  qed
  show "\<forall>a<length h. h'' ! a = h ! a"
  proof (intro allI impI)
    fix a assume "a < length h"
    then have "take (length h) h'' ! a = h'' ! a" by simp
    then show "h'' ! a = h ! a" using k by simp
  qed
qed

lemma puzzle4_guess_s:
  "guessPos_s [Board puzzle4] \<lparr>RSize = 4, RBoard = 0\<rparr> 0 0 =
     Some (0, [Board puzzle4, Board (boardOf [''111.'', ''1..1'', ''..11'', ''11..''])])"
  by code_simp

lemma puzzle4_hint_s:
  "TrivialHint_s [Board puzzle4] \<lparr>RSize = 4, RBoard = 0\<rparr> =
     Some ((0, 0, 0), [Board puzzle4, Board (boardOf [''111.'', ''1..1'', ''..11'', ''11..''])])"
  by code_simp

theorem guessPos_leaves_board_witness:
  "guessPos_s [Board puzzle4] \<lparr>RSize = 4, RBoard = 0\<rparr> 0 0 =
     Some (0, [Board puzzle4, Board (boardOf [''111.'', ''1..1'', ''..11'', ''11..''])]) \<and>
   TrivialHint_s [Board puzzle4] \<lparr>RSize = 4, RBoard = 0\<rparr> =
     Some ((0, 0, 0), [Board puzzle4, Board (boardOf [''111.'', ''1..1'', ''..11'', ''11..''])]) \<and>
   deref [Board puzzle4, Board (boardOf [''111.'', ''1..1'', ''..11'', ''11..''])]
         \<lparr>RSize = 4, RBoard = 0\<rparr> = deref [Board puzzle4] \<lparr>RSize = 4, RBoard = 0\<rparr> \<and>
   deref [Board puzzle4] \<lparr>RSize = 4, RBoard = 0\<rparr> = Some puzzle4"
proof -
  let ?h = "[Board puzzle4]"
  let ?h' = "[Board puzzle4, Board (boardOf [''111.'', ''1..1'', ''..11'', ''11..''])]"
  let ?b = "\<lparr>RSize = 4, RBoard = 0\<rparr>"
  from guessPos_leaves_board[of ?h ?b 0 0 0 ?h' "(0, 0, 0)" ?h'] puzzle4_guess_s puzzle4_hint_s
  have "deref ?h' ?b = deref ?h ?b" by blast
  moreover have "deref ?h ?b = Some puzzle4" by (simp add: deref_def puzzle4_def)
  ultimately show ?thesis using puzzle4_guess_s puzzle4_hint_s by blast
qed

section \<open>Generator entry point (build.go)\<close>

text \<open>
  The struct \<open>buildTakuzuOptions\<close>; its field \<open>size\<close> is \<open>size_opt\<close> here, and a
  \<open>time.Duration\<close> is an integer.
\<close>

record buildTakuzuOptions =
  size_opt :: int
  minRatio :: int
  maxRatio :: int
  simple :: bool
  buildBoardTimeout :: int
  reduceBoardTimeout :: int

text \<open>
  The loop \<open>for { takP, err = newRandomTakuzu(wid, buildOptions); if err == nil { break } }\<close>.
  \<open>newRandomTakuzu\<close> draws from the pseudo-random source and runs under wall-clock
  timeouts, so the outcome of its \<open>k\<close>-th call is given by \<open>attempt k\<close>: the board, or
  \<open>None\<close> for an error.  The loop need not end; then the result is \<open>None\<close>.
\<close>

partial_function (option) retryUntilBuilt :: "(nat \<Rightarrow> Takuzu option) \<Rightarrow> nat \<Rightarrow> Takuzu option" where
  "retryUntilBuilt attempt k =
     (case attempt k of Some t \<Rightarrow> Some t | None \<Rightarrow> retryUntilBuilt attempt (k + 1))"

text \<open>
  \<open>NewRandomTakuzu\<close>.  \<open>size%2\<close> is Go's truncated remainder, \<open>smod\<close>.
\<close>

definition NewRandomTakuzu ::
  "(buildTakuzuOptions \<Rightarrow> nat \<Rightarrow> Takuzu option) \<Rightarrow> int \<Rightarrow> bool \<Rightarrow> int \<Rightarrow> int \<Rightarrow> int \<Rightarrow> int \<Rightarrow>
     (string + Takuzu) option" where
  "NewRandomTakuzu newRandomTakuzu sz smpl bbt rbt minR maxR =
     (if sz smod 2 \<noteq> 0 then Some (Inl ''board size should be an even value'')
      else if sz < 4 then Some (Inl ''board size is too small'')
      else
        let minR' = (if minR < 40 then 40 else minR) in
        if minR' > maxR then Some (Inl ''minRatio/maxRatio incorrect'')
        else
          let maxR' = (if maxR > 99 then 99 else maxR);
              buildOptions = \<lparr>size_opt = sz, minRatio = minR', maxRatio = maxR', simple = smpl,
                              buildBoardTimeout = bbt, reduceBoardTimeout = rbt\<rparr>
          in map_option Inr (retryUntilBuilt (newRandomTakuzu buildOptions) 0))"

lemma smod_2_odd: "(k::int) smod 2 \<noteq> 0 \<longleftrightarrow> odd k"
proof -
  have "\<bar>k\<bar> mod 2 \<noteq> 0 \<longleftrightarrow> odd k" by presburger
  moreover have "k smod 2 \<noteq> 0 \<longleftrightarrow> k \<noteq> 0 \<and> \<bar>k\<bar> mod 2 \<noteq> 0"
    by (simp add: signed_modulo_int_def sgn_if)
  ultimately show ?thesis by auto
qed

text \<open>The parameters that \<open>NewRandomTakuzu\<close> rejects.\<close>

definition invalidBuildParams :: "int \<Rightarrow> int \<Rightarrow> int \<Rightarrow> bool" where
  "invalidBuildParams sz minR maxR = (odd sz \<or> sz < 4 \<or> max 40 minR > maxR)"

text \<open>
  Claim C9.  \<open>NewRandomTakuzu\<close> returns an error exactly when the size is odd, or less
  than 4, or \<open>minRatio\<close> raised to at least 40 exceeds \<open>maxRatio\<close>.  It does so without
  a call of the generator: the error is returned also with a generator whose every
  attempt fails, with which the retry loop would never end.  Otherwise the generator
  runs with \<open>minRatio\<close> raised to at least 40 and \<open>maxRatio\<close> lowered to at most 99, the
  latter after the comparison.
\<close>

theorem NewRandomTakuzu_params:
  "((\<exists>e. NewRandomTakuzu gen sz smpl bbt rbt minR maxR = Some (Inl e)) \<longleftrightarrow>
       invalidBuildParams sz minR maxR)
   \<and> (invalidBuildParams sz minR maxR \<longrightarrow>
        (\<exists>e. NewRandomTakuzu (\<lambda>_ _. None) sz smpl bbt rbt minR maxR = Some (Inl e)))
   \<and> (\<not> invalidBuildParams sz minR maxR \<longrightarrow>
        NewRandomTakuzu gen sz smpl bbt rbt minR maxR =
          map_option Inr
            (retryUntilBuilt
               (gen \<lparr>size_opt = sz, minRatio = max 40 minR, maxRatio = min 99 maxR, simple = smpl,
                     buildBoardTimeout = bbt, reduceBoardTimeout = rbt\<rparr>) 0))"
  by (auto simp: NewRandomTakuzu_def invalidBuildParams_def smod_2_odd Let_def max_def min_def
           split: if_splits)

theorem NewRandomTakuzu_params_witness:
  "invalidBuildParams 6 150 120 \<and> \<not> invalidBuildParams 6 150 200 \<and>
   (\<exists>e. NewRandomTakuzu (\<lambda>_ _. None) 6 False 0 0 150 120 = Some (Inl e)) \<and>
   NewRandomTakuzu (\<lambda>_ _. Some exampleBoard4) 6 False 0 0 150 200 = Some (Inr exampleBoard4)"
proof -
  have a: "invalidBuildParams 6 150 120" and b: "\<not> invalidBuildParams 6 150 200"
    by (simp_all add: invalidBuildParams_def)
  from NewRandomTakuzu_params[of "\<lambda>_ _. None" 6 False 0 0 150 120] a
  have c: "\<exists>e. NewRandomTakuzu (\<lambda>_ _. None) 6 False 0 0 150 120 = Some (Inl e)" by blast
  from NewRandomTakuzu_params[of "\<lambda>_ _. Some exampleBoard4" 6 False 0 0 150 200] b
  have "NewRandomTakuzu (\<lambda>_ _. Some exampleBoard4) 6 False 0 0 150 200 =
          map_option Inr (retryUntilBuilt (\<lambda>_. Some exampleBoard4) 0)" by simp
  then have d: "NewRandomTakuzu (\<lambda>_ _. Some exampleBoard4) 6 False 0 0 150 200 = Some (Inr exampleBoard4)"
    by (simp add: retryUntilBuilt.simps)
  from a b c d show ?thesis by blast
qed

end
